theory Spec2Isabelle
  imports Complex_Main "HOL-Library.Log_Nat"
begin

section \<open>Data model\<close>

text \<open>
  The class \<open>BigInt\<close> of \<open>src/bigint.py\<close> has one field, \<open>_digits\<close>: a Python list of
  (unbounded) integers, index 0 holding the least significant decimal digit. A value is
  modelled by that list. Nothing in the class restricts what a cell holds (the solver writes
  cells directly through the \<open>digits\<close> property), so the cells are arbitrary integers and the
  data-model invariants are separate predicates.
\<close>

type_synonym bigint = "int list"

text \<open>The exceptions raised by the code, explicitly or by a list subscript.\<close>

datatype error = NotImplementedError | ValueError | TypeError | IndexError

text \<open>An argument annotated \<open>object\<close>: either a \<open>BigInt\<close> or something else.\<close>

datatype pyobject = BigIntObj bigint | OtherObj

text \<open>Every cell holds a decimal digit.\<close>

definition valid_digits :: "bigint \<Rightarrow> bool" where
  "valid_digits ds = (\<forall>d\<in>set ds. 0 \<le> d \<and> d \<le> 9)"

text \<open>The most significant cell is non-zero whenever there is one.\<close>

definition canonical :: "bigint \<Rightarrow> bool" where
  "canonical ds = (0 < length ds \<longrightarrow> ds ! (length ds - 1) \<noteq> 0)"

text \<open>\<open>__len__\<close>\<close>

definition BigInt_len :: "bigint \<Rightarrow> int" where
  "BigInt_len ds = int (length ds)"

text \<open>
  The position a Python list subscript \<open>xs[i]\<close> addresses in a list of \<open>n\<close> cells: negative
  subscripts count from the end, anything outside \<open>-n .. n-1\<close> raises \<open>IndexError\<close>.
\<close>

definition item_index :: "nat \<Rightarrow> int \<Rightarrow> nat option" where
  "item_index n i =
     (if 0 \<le> i \<and> i < int n then Some (nat i)
      else if i < 0 \<and> - int n \<le> i then Some (nat (int n + i))
      else None)"

section \<open>The carry engine\<close>

text \<open>\<open>while idx >= len(self): self._digits.append(0)\<close>\<close>

function grow :: "bigint \<Rightarrow> int \<Rightarrow> bigint" where
  "grow ds idx = (if idx \<ge> BigInt_len ds then grow (ds @ [0]) idx else ds)"
  by pat_completeness auto
termination
  by (relation "measure (\<lambda>(ds, idx). nat (idx + 1 - int (length ds)))")
     (auto simp: BigInt_len_def)

declare grow.simps [simp del]

lemma grow_eq: "grow ds idx = ds @ replicate (nat (idx + 1 - int (length ds))) 0"
proof (induction ds idx rule: grow.induct)
  case (1 ds idx)
  show ?case
  proof (cases "idx \<ge> int (length ds)")
    case True
    then have n: "nat (idx + 1 - int (length ds)) = Suc (nat (idx + 1 - int (length (ds @ [0]))))"
      by simp
    from True have "grow ds idx = grow (ds @ [0]) idx"
      by (subst grow.simps) (simp add: BigInt_len_def)
    also have "\<dots> = (ds @ [0]) @ replicate (nat (idx + 1 - int (length (ds @ [0])))) 0"
      using "1.IH" True by (simp add: BigInt_len_def)
    finally show ?thesis
      unfolding n by simp
  next
    case False
    then show ?thesis
      by (subst grow.simps) (simp add: BigInt_len_def)
  qed
qed

lemma length_grow: "length (grow ds idx) = max (length ds) (nat (idx + 1))"
  by (simp add: grow_eq)

lemma grow_noop: "idx < int (length ds) \<Longrightarrow> grow ds idx = ds"
  by (simp add: grow_eq)

lemma grow_new_cell:
  assumes "int (length ds) \<le> idx"
  shows "grow ds idx ! nat idx = 0"
proof -
  from assms have "\<not> nat idx < length ds" and "nat idx - length ds < nat (idx + 1 - int (length ds))"
    by linarith+
  then show ?thesis
    by (simp add: grow_eq nth_append)
qed

text \<open>
  The recursive call of \<open>add_at\<close> is smaller than the call that makes it: below the end of the
  store the index moves towards the end; from the end on, the cell read is a fresh 0, so the
  carry handed on is \<open>v div 10 < v\<close>.
\<close>

lemma add_at_call_decreases:
  assumes "\<not> v < 0" and "v \<noteq> 0"
    and "item_index (length (grow ds idx)) idx = Some k"
    and "new_val = grow ds idx ! k + v"
  shows "(((grow ds idx)[k := new_val mod 10], idx + 1, new_val div 10), ds, idx, v)
     \<in> measures [\<lambda>(ds, idx, v). nat (int (length ds) - idx), \<lambda>(ds, idx, v). nat v]"
proof (cases "int (length ds) \<le> idx")
  case True
  with assms have k: "k = nat idx"
    by (auto simp: item_index_def length_grow split: if_splits)
  have "new_val = v"
    using assms True by (simp add: k grow_new_cell)
  moreover have "v div 10 < v"
    using assms by simp
  ultimately show ?thesis
    using assms True by (simp add: length_grow)
next
  case False
  then show ?thesis
    by (simp add: grow_noop)
qed

text \<open>
  \<open>add_at\<close>. The object is mutated in place; the model returns the new digit list, or the
  exception raised.
\<close>

function add_at :: "bigint \<Rightarrow> int \<Rightarrow> int \<Rightarrow> error + bigint" where
  "add_at ds idx v =
     (if v < 0 then Inl NotImplementedError
      else if v = 0 then Inr ds
      else
        (case item_index (length (grow ds idx)) idx of
           None \<Rightarrow> Inl IndexError
         | Some k \<Rightarrow>
             (let new_val = grow ds idx ! k + v
              in add_at ((grow ds idx)[k := new_val mod 10]) (idx + 1) (new_val div 10))))"
  by pat_completeness auto
termination
  by (relation "measures [\<lambda>(ds, idx, v). nat (int (length ds) - idx), \<lambda>(ds, idx, v). nat v]")
     (simp, blast intro: add_at_call_decreases)

declare add_at.simps [simp del]

text \<open>
  The number of nested recursive calls a call of \<open>add_at\<close> makes before it returns or raises
  (0 when it returns at once): the same recursion, counting.
\<close>

function add_at_depth :: "bigint \<Rightarrow> int \<Rightarrow> int \<Rightarrow> nat" where
  "add_at_depth ds idx v =
     (if v < 0 then 0
      else if v = 0 then 0
      else
        (case item_index (length (grow ds idx)) idx of
           None \<Rightarrow> 0
         | Some k \<Rightarrow>
             (let new_val = grow ds idx ! k + v
              in Suc (add_at_depth ((grow ds idx)[k := new_val mod 10]) (idx + 1) (new_val div 10)))))"
  by pat_completeness auto
termination
  by (relation "measures [\<lambda>(ds, idx, v). nat (int (length ds) - idx), \<lambda>(ds, idx, v). nat v]")
     (simp, blast intro: add_at_call_decreases)

declare add_at_depth.simps [simp del]

section \<open>Construction and conversions\<close>

text \<open>
  \<open>for _ in range(num_dc): self._digits.append(value % 10); value //= 10\<close>.
  Python's \<open>%\<close> and \<open>//\<close> on integers are floor division, as \<open>mod\<close> and \<open>div\<close> on \<open>int\<close>.
\<close>

fun digits_loop :: "nat \<Rightarrow> int \<Rightarrow> bigint \<Rightarrow> bigint" where
  "digits_loop 0 v ds = ds"
| "digits_loop (Suc n) v ds = digits_loop n (v div 10) (ds @ [v mod 10])"

text \<open>
  \<open>rand.randint(lo, hi)\<close> returns some integer between \<open>lo\<close> and \<open>hi\<close>, both included; the
  model takes the generator's raw draw \<open>r\<close> as an argument.
\<close>

definition randint :: "int \<Rightarrow> int \<Rightarrow> nat \<Rightarrow> int" where
  "randint lo hi r = lo + int r mod (hi - lo + 1)"

text \<open>
  \<open>for i in range(digit_count): self._digits.append(rand.randint(0 if i < digit_count - 1 else 1, 9))\<close>,
  over the list of the values of \<open>i\<close>; \<open>rnd i\<close> is the raw draw of round \<open>i\<close>.
\<close>

fun random_loop :: "(nat \<Rightarrow> nat) \<Rightarrow> int \<Rightarrow> nat list \<Rightarrow> bigint \<Rightarrow> bigint" where
  "random_loop rnd digit_count [] ds = ds"
| "random_loop rnd digit_count (i # is) ds =
     random_loop rnd digit_count is
       (ds @ [randint (if int i < digit_count - 1 then 0 else 1) 9 (rnd i)])"

text \<open>
  \<open>__init__\<close>. The two keyword arguments are \<open>int | None\<close>. \<open>math.log10\<close> is a floating-point
  library function, not code of this repository: the constructor takes as the parameter
  \<open>lg\<close> the function that maps \<open>value\<close> to the integer \<open>int(math.log10(value))\<close>, and as \<open>rnd\<close> the
  draws of the random generator. \<open>range(n)\<close> is empty for \<open>n \<le> 0\<close>, hence \<open>nat\<close>.
\<close>

definition BigInt_init ::
  "(int \<Rightarrow> int) \<Rightarrow> (nat \<Rightarrow> nat) \<Rightarrow> int option \<Rightarrow> int option \<Rightarrow> error + bigint" where
  "BigInt_init lg rnd val digit_count =
     (case val of
        Some v \<Rightarrow>
          if v < 0 then Inl NotImplementedError
          else if v \<noteq> 0 then
            (let val_dc = lg v + 1;
                 num_dc = (case digit_count of None \<Rightarrow> val_dc | Some dc \<Rightarrow> min val_dc dc)
             in Inr (digits_loop (nat num_dc) v []))
          else Inr []
      | None \<Rightarrow>
          (case digit_count of
             None \<Rightarrow> Inl ValueError
           | Some dc \<Rightarrow> Inr (random_loop rnd dc [0..<nat dc] [])))"

text \<open>
  The mathematical value of \<open>int(math.log10(value))\<close> for \<open>value > 0\<close>: the floor of the
  decimal logarithm (see \<open>log10_floor_eq\<close> below). The rounding of the floating-point call
  is not part of it.
\<close>

definition log10_floor :: "int \<Rightarrow> int" where
  "log10_floor v = int (floorlog 10 (nat v)) - 1"

text \<open>A generator whose every raw draw is 0.\<close>

definition zero_draws :: "nat \<Rightarrow> nat" where
  "zero_draws i = 0"

text \<open>\<open>clone\<close>: a fresh \<open>BigInt(digit_count=0)\<close>, then every digit appended in order.\<close>

fun clone_loop :: "int list \<Rightarrow> bigint \<Rightarrow> bigint" where
  "clone_loop [] c = c"
| "clone_loop (digit # rest) c = clone_loop rest (c @ [digit])"

definition clone :: "bigint \<Rightarrow> bigint" where
  "clone ds = clone_loop ds []"

text \<open>\<open>__int__\<close>: \<open>for i in range(len(self)): val += self._digits[i] * 10**i\<close>.\<close>

definition BigInt_int :: "bigint \<Rightarrow> int" where
  "BigInt_int ds = foldl (\<lambda>val i. val + ds ! i * 10 ^ i) 0 [0..<length ds]"

text \<open>
  \<open>f"{digit}"\<close> formats an integer in decimal, with a minus sign when it is negative.
\<close>

function nat_str :: "nat \<Rightarrow> string" where
  "nat_str n = (if n < 10 then [''0123456789'' ! n] else nat_str (n div 10) @ [''0123456789'' ! (n mod 10)])"
  by pat_completeness auto
termination
  by (relation "measure id") auto

declare nat_str.simps [simp del]

definition py_str_int :: "int \<Rightarrow> string" where
  "py_str_int i = (if i < 0 then CHR ''-'' # nat_str (nat (- i)) else nat_str (nat i))"

text \<open>\<open>__str__\<close>: \<open>for digit in self._digits: s = f"{digit}" + s\<close>.\<close>

definition BigInt_str :: "bigint \<Rightarrow> string" where
  "BigInt_str ds = foldl (\<lambda>s digit. py_str_int digit @ s) [] ds"

section \<open>Comparison\<close>

text \<open>
  \<open>__eq__\<close>. The loop runs over \<open>range(len(self))\<close> and stops at the first position where the
  digits differ.
\<close>

fun eq_loop :: "bigint \<Rightarrow> bigint \<Rightarrow> nat list \<Rightarrow> bool \<Rightarrow> bool" where
  "eq_loop xs ys [] eq = eq"
| "eq_loop xs ys (i # is) eq =
     (let eq' = (xs ! i = ys ! i) in if \<not> eq' then eq' else eq_loop xs ys is eq')"

definition BigInt_eq :: "bigint \<Rightarrow> pyobject \<Rightarrow> bool" where
  "BigInt_eq self other =
     (case other of
        OtherObj \<Rightarrow> False
      | BigIntObj ys \<Rightarrow>
          if BigInt_len self \<noteq> BigInt_len ys then False
          else eq_loop self ys [0..<length self] True)"

text \<open>
  \<open>__gt__\<close>. The loop runs over \<open>range(len(self) - 1, -1, -1)\<close>, the positions from the most
  significant down, with the two flags \<open>nlt\<close> and \<open>gt\<close>; it breaks when \<open>gt or not nlt\<close>.
\<close>

fun gt_loop :: "bigint \<Rightarrow> bigint \<Rightarrow> nat list \<Rightarrow> bool \<Rightarrow> bool" where
  "gt_loop xs ys [] gt = gt"
| "gt_loop xs ys (i # is) gt =
     (let d1 = xs ! i; d2 = ys ! i; nlt = (d1 \<ge> d2); gt' = (d1 > d2)
      in if gt' \<or> \<not> nlt then gt' else gt_loop xs ys is gt')"

definition BigInt_gt :: "bigint \<Rightarrow> pyobject \<Rightarrow> error + bool" where
  "BigInt_gt self other =
     (case other of
        OtherObj \<Rightarrow> Inl TypeError
      | BigIntObj ys \<Rightarrow>
          if BigInt_len self \<noteq> BigInt_len ys then Inr (BigInt_len self > BigInt_len ys)
          else Inr (gt_loop self ys (rev [0..<length self]) False))"

text \<open>
  \<open>__le__\<close> returns \<open>not self > other\<close>. \<open>__ge__\<close> returns \<open>not self < other\<close>; the class defines
  no \<open>__lt__\<close>, so Python evaluates \<open>self < other\<close> between two \<open>BigInt\<close>s by the reflected
  method, \<open>other.__gt__(self)\<close>.
\<close>

definition BigInt_le :: "bigint \<Rightarrow> pyobject \<Rightarrow> error + bool" where
  "BigInt_le self other =
     (case other of
        OtherObj \<Rightarrow> Inl TypeError
      | BigIntObj ys \<Rightarrow>
          (case BigInt_gt self (BigIntObj ys) of Inl e \<Rightarrow> Inl e | Inr b \<Rightarrow> Inr (\<not> b)))"

definition BigInt_ge :: "bigint \<Rightarrow> pyobject \<Rightarrow> error + bool" where
  "BigInt_ge self other =
     (case other of
        OtherObj \<Rightarrow> Inl TypeError
      | BigIntObj ys \<Rightarrow>
          (case BigInt_gt ys (BigIntObj self) of Inl e \<Rightarrow> Inl e | Inr b \<Rightarrow> Inr (\<not> b)))"

section \<open>Arithmetic\<close>

text \<open>
  \<open>__add__\<close>. The accumulator is \<open>BigInt(digit_count=0)\<close>, the empty store (\<open>range(0)\<close> draws
  nothing); the loop runs over \<open>range(max(len(self), len(other)))\<close> and stops at the first
  exception of \<open>add_at\<close>.
\<close>

fun add_loop :: "bigint \<Rightarrow> bigint \<Rightarrow> nat list \<Rightarrow> bigint \<Rightarrow> error + bigint" where
  "add_loop xs ys [] result = Inr result"
| "add_loop xs ys (i # is) result =
     (let a = (if int i < BigInt_len xs then xs ! i else 0);
          b = (if int i < BigInt_len ys then ys ! i else 0)
      in case add_at result (int i) (a + b) of
           Inl e \<Rightarrow> Inl e
         | Inr result' \<Rightarrow> add_loop xs ys is result')"

definition BigInt_add :: "bigint \<Rightarrow> pyobject \<Rightarrow> error + bigint" where
  "BigInt_add self other =
     (case other of
        OtherObj \<Rightarrow> Inl TypeError
      | BigIntObj ys \<Rightarrow> add_loop self ys [0..<max (length self) (length ys)] [])"

text \<open>
  \<open>__mul__\<close>. The inner loop, over \<open>range(len(self))\<close>, threads the accumulator and the row's
  carry; the outer loop, over \<open>range(len(other))\<close>, starts each row with carry 0 and deposits
  what is left of it at \<open>j + len(self)\<close> when it is not 0.
\<close>

fun mul_row :: "bigint \<Rightarrow> bigint \<Rightarrow> nat \<Rightarrow> nat list \<Rightarrow> bigint \<Rightarrow> int \<Rightarrow> error + (bigint \<times> int)" where
  "mul_row xs ys j [] result carry = Inr (result, carry)"
| "mul_row xs ys j (i # is) result carry =
     (let product = xs ! i * ys ! j + carry;
          carry' = product div 10;
          product' = product mod 10
      in case add_at result (int j + int i) product' of
           Inl e \<Rightarrow> Inl e
         | Inr result' \<Rightarrow> mul_row xs ys j is result' carry')"

fun mul_loop :: "bigint \<Rightarrow> bigint \<Rightarrow> nat list \<Rightarrow> bigint \<Rightarrow> error + bigint" where
  "mul_loop xs ys [] result = Inr result"
| "mul_loop xs ys (j # js) result =
     (case mul_row xs ys j [0..<length xs] result 0 of
        Inl e \<Rightarrow> Inl e
      | Inr (result', carry) \<Rightarrow>
          if carry \<noteq> 0 then
            (case add_at result' (int j + BigInt_len xs) carry of
               Inl e \<Rightarrow> Inl e
             | Inr result'' \<Rightarrow> mul_loop xs ys js result'')
          else mul_loop xs ys js result')"

definition BigInt_mul :: "bigint \<Rightarrow> pyobject \<Rightarrow> error + bigint" where
  "BigInt_mul self other =
     (case other of
        OtherObj \<Rightarrow> Inl TypeError
      | BigIntObj ys \<Rightarrow> mul_loop self ys [0..<length ys] [])"

section \<open>The extremal-product solver\<close>

text \<open>
  \<open>calc_extreme_products_brute\<close> of \<open>src/examples/max_product/max_product.py\<close>. The search
  index starts at 0 and only grows, so it is a natural number. The code swaps the cells at
  \<open>idx\<close> of \<open>a\<close> and \<open>b\<close> in place before the second recursive call and swaps them back
  after it, so that every call returns with \<open>a\<close> and \<open>b\<close> as it found them; the model passes
  the swapped lists to the second call. The comparisons \<open>>=\<close> and \<open><=\<close> are those of the class.
\<close>

function calc_extreme_products_brute ::
  "bigint \<Rightarrow> bigint \<Rightarrow> nat \<Rightarrow> error + (bigint \<times> bigint \<times> bigint \<times> bigint \<times> bigint \<times> bigint)" where
  "calc_extreme_products_brute a b idx =
     (if BigInt_len a \<noteq> BigInt_len b then Inl ValueError
      else if int idx \<ge> BigInt_len a then
        (case BigInt_mul a (BigIntObj b) of
           Inl e \<Rightarrow> Inl e
         | Inr prod_ab \<Rightarrow> Inr (clone a, clone b, prod_ab, clone a, clone b, clone prod_ab))
      else
        (case calc_extreme_products_brute a b (idx + 1) of
           Inl e \<Rightarrow> Inl e
         | Inr (c1_max, d1_max, p1_max, c1_min, d1_min, p1_min) \<Rightarrow>
             (case calc_extreme_products_brute (a[idx := b ! idx]) (b[idx := a ! idx]) (idx + 1) of
                Inl e \<Rightarrow> Inl e
              | Inr (c2_max, d2_max, p2_max, c2_min, d2_min, p2_min) \<Rightarrow>
                  (case BigInt_ge p1_max (BigIntObj p2_max) of
                     Inl e \<Rightarrow> Inl e
                   | Inr ge_max \<Rightarrow>
                       (case BigInt_le p1_min (BigIntObj p2_min) of
                          Inl e \<Rightarrow> Inl e
                        | Inr le_min \<Rightarrow>
                            (let (cr_max, dr_max, pr_max) =
                                   (if ge_max then (c1_max, d1_max, p1_max)
                                    else (c2_max, d2_max, p2_max));
                                 (cr_min, dr_min, pr_min) =
                                   (if le_min then (c1_min, d1_min, p1_min)
                                    else (c2_min, d2_min, p2_min))
                             in Inr (cr_max, dr_max, pr_max, cr_min, dr_min, pr_min)))))))"
  by pat_completeness auto
termination
  by (relation "measure (\<lambda>(a, b, idx). length a - idx)") (auto simp: BigInt_len_def)

declare calc_extreme_products_brute.simps [simp del]

text \<open>
  \<open>calc_max_product\<close>. The loop index \<open>i\<close> runs over \<open>-1, -2, ..., -len(a)\<close>; with \<open>len(a)\<close>
  cells, \<open>digits[i]\<close> is the cell at position \<open>len(a) + i\<close> (see \<open>item_index\<close>), so the loop visits
  the positions \<open>len(a) - 1\<close> down to 0, and the model runs over those.
\<close>

fun max_loop :: "nat list \<Rightarrow> bigint \<Rightarrow> bigint \<Rightarrow> bool \<Rightarrow> bigint \<times> bigint" where
  "max_loop [] c d found_diff = (c, d)"
| "max_loop (i # is) c d found_diff =
     (let curr_diff = (c ! i \<noteq> d ! i);
          (c', d') =
            (if (\<not> found_diff \<and> curr_diff \<and> c ! i < d ! i) \<or> (found_diff \<and> c ! i > d ! i)
             then (c[i := d ! i], d[i := c ! i]) else (c, d));
          found_diff' = (found_diff \<or> c' ! i \<noteq> d' ! i)
      in max_loop is c' d' found_diff')"

definition calc_max_product :: "bigint \<Rightarrow> bigint \<Rightarrow> error + (bigint \<times> bigint \<times> bigint)" where
  "calc_max_product a b =
     (if BigInt_len a \<noteq> BigInt_len b then Inl ValueError
      else
        (let (c, d) = max_loop (rev [0..<length a]) (clone a) (clone b) False
         in case BigInt_mul c (BigIntObj d) of
              Inl e \<Rightarrow> Inl e
            | Inr p \<Rightarrow> Inr (c, d, p)))"

text \<open>\<open>calc_min_product\<close>, over the same positions.\<close>

fun min_loop :: "nat list \<Rightarrow> bigint \<Rightarrow> bigint \<Rightarrow> bigint \<times> bigint" where
  "min_loop [] c d = (c, d)"
| "min_loop (i # is) c d =
     (let (c', d') = (if c ! i < d ! i then (c[i := d ! i], d[i := c ! i]) else (c, d))
      in min_loop is c' d')"

definition calc_min_product :: "bigint \<Rightarrow> bigint \<Rightarrow> error + (bigint \<times> bigint \<times> bigint)" where
  "calc_min_product a b =
     (if BigInt_len a \<noteq> BigInt_len b then Inl ValueError
      else
        (let (c, d) = min_loop (rev [0..<length a]) (clone a) (clone b)
         in case BigInt_mul c (BigIntObj d) of
              Inl e \<Rightarrow> Inl e
            | Inr p \<Rightarrow> Inr (c, d, p)))"

section \<open>Notions for stating the properties\<close>

text \<open>The value of the \<open>m\<close> least significant cells.\<close>

definition low_value :: "nat \<Rightarrow> bigint \<Rightarrow> int" where
  "low_value m xs = (\<Sum>i<m. xs ! i * 10 ^ i)"

text \<open>The sum of the absolute differences of the \<open>m\<close> least significant cells, weighted.\<close>

definition spread :: "bigint \<Rightarrow> bigint \<Rightarrow> nat \<Rightarrow> int" where
  "spread c d m = (\<Sum>i<m. \<bar>c ! i - d ! i\<bar> * 10 ^ i)"

text \<open>
  \<open>swapped_from idx a b c d\<close>: the pair \<open>(c, d)\<close> is obtained from \<open>(a, b)\<close> by swapping the
  corresponding cells at some of the positions from \<open>idx\<close> on.
\<close>

definition swapped_from :: "nat \<Rightarrow> bigint \<Rightarrow> bigint \<Rightarrow> bigint \<Rightarrow> bigint \<Rightarrow> bool" where
  "swapped_from idx a b c d \<longleftrightarrow>
     length c = length a \<and> length d = length b \<and>
     (\<forall>i<length a. (c ! i = a ! i \<and> d ! i = b ! i) \<or> (idx \<le> i \<and> c ! i = b ! i \<and> d ! i = a ! i))"

text \<open>\<open>p\<close> is a canonical value whose integer is the greatest (the least) product of such a pair.\<close>

definition is_max_of :: "nat \<Rightarrow> bigint \<Rightarrow> bigint \<Rightarrow> bigint \<Rightarrow> bool" where
  "is_max_of idx a b p \<longleftrightarrow>
     valid_digits p \<and> canonical p \<and>
     (\<exists>c d. swapped_from idx a b c d \<and> BigInt_int p = BigInt_int c * BigInt_int d) \<and>
     (\<forall>c d. swapped_from idx a b c d \<longrightarrow> BigInt_int c * BigInt_int d \<le> BigInt_int p)"

definition is_min_of :: "nat \<Rightarrow> bigint \<Rightarrow> bigint \<Rightarrow> bigint \<Rightarrow> bool" where
  "is_min_of idx a b p \<longleftrightarrow>
     valid_digits p \<and> canonical p \<and>
     (\<exists>c d. swapped_from idx a b c d \<and> BigInt_int p = BigInt_int c * BigInt_int d) \<and>
     (\<forall>c d. swapped_from idx a b c d \<longrightarrow> BigInt_int p \<le> BigInt_int c * BigInt_int d)"

section \<open>Properties of the carry engine\<close>

lemma foldl_add_upt:
  "foldl (\<lambda>val i. val + f i) a [0..<n] = a + (\<Sum>i<n. f i)" for a :: int
  by (induction n) simp_all

lemma BigInt_int_sum: "BigInt_int ds = (\<Sum>i<length ds. ds ! i * 10 ^ i)"
  by (simp add: BigInt_int_def foldl_add_upt)

lemma BigInt_int_Nil [simp]: "BigInt_int [] = 0"
  by (simp add: BigInt_int_sum)

lemma BigInt_int_snoc: "BigInt_int (ds @ [x]) = BigInt_int ds + x * 10 ^ length ds"
  by (simp add: BigInt_int_sum nth_append)

lemma BigInt_int_Cons: "BigInt_int (x # ds) = x + 10 * BigInt_int ds"
proof -
  have "BigInt_int (x # ds) = x + (\<Sum>i<length ds. ds ! i * 10 ^ Suc i)"
    by (simp add: BigInt_int_sum sum.lessThan_Suc_shift del: sum.lessThan_Suc)
  also have "(\<Sum>i<length ds. ds ! i * 10 ^ Suc i) = 10 * (\<Sum>i<length ds. ds ! i * 10 ^ i)"
    by (simp add: sum_distrib_left mult_ac)
  finally show ?thesis
    by (simp add: BigInt_int_sum)
qed

lemma BigInt_int_zeros: "BigInt_int (ds @ replicate n 0) = BigInt_int ds"
proof (induction n arbitrary: ds)
  case 0
  show ?case by simp
next
  case (Suc n)
  have "BigInt_int (ds @ replicate (Suc n) 0) = BigInt_int ((ds @ [0]) @ replicate n 0)"
    by simp
  also have "\<dots> = BigInt_int (ds @ [0])"
    by (rule Suc.IH)
  finally show ?case
    by (simp add: BigInt_int_snoc)
qed

lemma BigInt_int_update:
  "i < length ds \<Longrightarrow> BigInt_int (ds[i := x]) = BigInt_int ds + (x - ds ! i) * 10 ^ i"
proof (induction ds arbitrary: i)
  case Nil
  then show ?case by simp
next
  case (Cons d ds)
  show ?case
  proof (cases i)
    case 0
    then show ?thesis
      by (simp add: BigInt_int_Cons)
  next
    case (Suc n)
    with Cons.prems have "n < length ds"
      by simp
    then have "BigInt_int (ds[n := x]) = BigInt_int ds + (x - ds ! n) * 10 ^ n"
      by (rule Cons.IH)
    then show ?thesis
      using Suc by (simp add: BigInt_int_Cons algebra_simps)
  qed
qed

lemma valid_digits_Nil [simp]: "valid_digits []"
  by (simp add: valid_digits_def)

lemma valid_digits_grow: "valid_digits ds \<Longrightarrow> valid_digits (grow ds idx)"
  by (auto simp: valid_digits_def grow_eq)

lemma valid_digits_update:
  "valid_digits ds \<Longrightarrow> 0 \<le> x \<Longrightarrow> x \<le> 9 \<Longrightarrow> valid_digits (ds[k := x])"
  by (auto simp: valid_digits_def dest!: subsetD[OF set_update_subset_insert])

lemma valid_digits_nth: "valid_digits ds \<Longrightarrow> k < length ds \<Longrightarrow> 0 \<le> ds ! k \<and> ds ! k \<le> 9"
  by (simp add: valid_digits_def)

lemma item_index_nonneg:
  "0 \<le> idx \<Longrightarrow> item_index (length (grow ds idx)) idx = Some (nat idx)"
  by (auto simp: item_index_def length_grow)

lemma add_at_zero [simp]: "add_at ds idx 0 = Inr ds"
  by (subst add_at.simps) simp

lemma add_at_neg: "v < 0 \<Longrightarrow> add_at ds idx v = Inl NotImplementedError"
  by (subst add_at.simps) simp

lemma add_at_pos:
  "0 < v \<Longrightarrow> 0 \<le> idx \<Longrightarrow>
   add_at ds idx v =
     add_at ((grow ds idx)[nat idx := (grow ds idx ! nat idx + v) mod 10]) (idx + 1)
       ((grow ds idx ! nat idx + v) div 10)"
  by (subst add_at.simps) (simp add: item_index_nonneg Let_def)

lemma add_at_value:
  "valid_digits ds \<Longrightarrow> 0 \<le> idx \<Longrightarrow> 0 \<le> v \<Longrightarrow>
   \<exists>r. add_at ds idx v = Inr r \<and> valid_digits r \<and> length ds \<le> length r \<and>
       (0 < v \<longrightarrow> nat idx < length r) \<and>
       BigInt_int r = BigInt_int ds + v * 10 ^ nat idx"
proof (induction ds idx v rule: add_at.induct)
  case (1 ds idx v)
  show ?case
  proof (cases "v = 0")
    case True
    then show ?thesis
      using "1.prems" by simp
  next
    case False
    with "1.prems" have pos: "0 < v" and nneg: "\<not> v < 0"
      by simp_all
    define g where "g = grow ds idx"
    define k where "k = nat idx"
    define nv where "nv = g ! k + v"
    have kg: "k < length g"
      using "1.prems" by (simp add: g_def k_def length_grow)
    have vg: "valid_digits g"
      using "1.prems" by (simp add: g_def valid_digits_grow)
    have cell: "0 \<le> g ! k"
      using valid_digits_nth[OF vg kg] by simp
    have nv0: "0 \<le> nv div 10"
      using cell pos by (simp add: nv_def)
    have vg': "valid_digits (g[k := nv mod 10])"
      using vg by (rule valid_digits_update) simp_all
    have ii: "item_index (length (grow ds idx)) idx = Some k"
      using "1.prems" by (simp add: k_def item_index_nonneg)
    have "\<exists>r. add_at (g[k := nv mod 10]) (idx + 1) (nv div 10) = Inr r \<and> valid_digits r \<and>
        length (g[k := nv mod 10]) \<le> length r \<and>
        (0 < nv div 10 \<longrightarrow> nat (idx + 1) < length r) \<and>
        BigInt_int r = BigInt_int (g[k := nv mod 10]) + nv div 10 * 10 ^ nat (idx + 1)"
      using "1.IH"[OF nneg False ii, of nv] vg' nv0 "1.prems"
      by (simp add: g_def nv_def)
    then obtain r where r: "add_at (g[k := nv mod 10]) (idx + 1) (nv div 10) = Inr r"
      and vr: "valid_digits r" and len: "length g \<le> length r"
      and val: "BigInt_int r = BigInt_int (g[k := nv mod 10]) + nv div 10 * 10 ^ nat (idx + 1)"
      by auto
    have res: "add_at ds idx v = Inr r"
      using r pos "1.prems" by (simp add: add_at_pos g_def k_def nv_def)
    have "length ds \<le> length g"
      by (simp add: g_def length_grow)
    with len kg have l: "length ds \<le> length r" "nat idx < length r"
      by (simp_all add: k_def)
    have "BigInt_int g = BigInt_int ds"
      by (simp add: g_def grow_eq BigInt_int_zeros)
    moreover have "nat (idx + 1) = Suc k"
      using "1.prems" by (simp add: k_def)
    ultimately have "BigInt_int r =
        BigInt_int ds + (nv mod 10 - g ! k) * 10 ^ k + nv div 10 * (10 * 10 ^ k)"
      using val kg by (simp add: BigInt_int_update)
    also have "\<dots> = BigInt_int ds + (nv mod 10 + 10 * (nv div 10) - g ! k) * 10 ^ k"
      by (simp only: algebra_simps)
    also have "nv mod 10 + 10 * (nv div 10) - g ! k = v"
      by (simp add: nv_def)
    finally have "BigInt_int r = BigInt_int ds + v * 10 ^ nat idx"
      by (simp add: k_def)
    with res vr l show ?thesis
      by simp
  qed
qed

lemma add_at_depth_zero [simp]: "add_at_depth ds idx 0 = 0"
  by (subst add_at_depth.simps) simp

lemma add_at_depth_pos:
  "0 < v \<Longrightarrow> 0 \<le> idx \<Longrightarrow>
   add_at_depth ds idx v =
     Suc (add_at_depth ((grow ds idx)[nat idx := (grow ds idx ! nat idx + v) mod 10]) (idx + 1)
       ((grow ds idx ! nat idx + v) div 10))"
  by (subst add_at_depth.simps) (simp add: item_index_nonneg Let_def)

lemma add_at_no_NotImplementedError:
  "valid_digits ds \<Longrightarrow> 0 \<le> v \<Longrightarrow> add_at ds idx v \<noteq> Inl NotImplementedError"
proof (induction ds idx v rule: add_at.induct)
  case (1 ds idx v)
  show ?case
  proof (cases "v = 0")
    case True
    then show ?thesis by simp
  next
    case False
    with "1.prems" have nneg: "\<not> v < 0" and pos: "0 < v"
      by simp_all
    show ?thesis
    proof (cases "item_index (length (grow ds idx)) idx")
      case None
      then show ?thesis
        using nneg False by (subst add_at.simps) simp
    next
      case (Some k)
      define g where "g = grow ds idx"
      define nv where "nv = g ! k + v"
      have kg: "k < length g"
        using Some by (auto simp: g_def item_index_def split: if_splits)
      have vg: "valid_digits g"
        using "1.prems" by (simp add: g_def valid_digits_grow)
      have "0 \<le> g ! k"
        using valid_digits_nth[OF vg kg] by simp
      then have nv0: "0 \<le> nv div 10"
        using pos by (simp add: nv_def)
      have vg': "valid_digits (g[k := nv mod 10])"
        using vg by (rule valid_digits_update) simp_all
      have "add_at (g[k := nv mod 10]) (idx + 1) (nv div 10) \<noteq> Inl NotImplementedError"
        using "1.IH"[OF nneg False Some, of nv] vg' nv0 by (simp add: g_def nv_def)
      then show ?thesis
        using nneg False Some by (subst add_at.simps) (simp add: g_def nv_def Let_def)
    qed
  qed
qed

lemma add_at_canonical:
  "valid_digits ds \<Longrightarrow> 0 \<le> idx \<Longrightarrow> 0 \<le> v \<Longrightarrow>
   canonical ds \<or> (0 < v \<and> int (length ds) \<le> idx) \<Longrightarrow>
   add_at ds idx v = Inr r \<Longrightarrow> canonical r"
proof (induction ds idx v rule: add_at.induct)
  case (1 ds idx v)
  show ?case
  proof (cases "v = 0")
    case True
    then show ?thesis
      using "1.prems" by simp
  next
    case False
    with "1.prems" have pos: "0 < v" and nneg: "\<not> v < 0"
      by simp_all
    define g where "g = grow ds idx"
    define k where "k = nat idx"
    define nv where "nv = g ! k + v"
    have kg: "k < length g"
      using "1.prems" by (simp add: g_def k_def length_grow)
    have vg: "valid_digits g"
      using "1.prems" by (simp add: g_def valid_digits_grow)
    have cell: "0 \<le> g ! k"
      using valid_digits_nth[OF vg kg] by simp
    have nv0: "0 \<le> nv div 10"
      using cell pos by (simp add: nv_def)
    have nvpos: "0 < nv"
      using cell pos by (simp add: nv_def)
    have vg': "valid_digits (g[k := nv mod 10])"
      using vg by (rule valid_digits_update) simp_all
    have ii: "item_index (length (grow ds idx)) idx = Some k"
      using "1.prems" by (simp add: k_def item_index_nonneg)
    have rec: "add_at (g[k := nv mod 10]) (idx + 1) (nv div 10) = Inr r"
      using "1.prems" pos by (simp add: add_at_pos g_def k_def nv_def)
    have below: "canonical (g[k := nv mod 10])" if "Suc k < length g"
    proof -
      from that "1.prems" have "idx < int (length ds)"
        by (simp add: g_def k_def length_grow)
      then have "g = ds" and "canonical ds"
        using "1.prems" by (simp_all add: g_def grow_noop)
      then show ?thesis
        using that by (simp add: canonical_def)
    qed
    show ?thesis
    proof (cases "nv div 10 = 0")
      case True
      then have r: "r = g[k := nv mod 10]"
        using rec by simp
      show ?thesis
      proof (cases "Suc k < length g")
        case True
        then show ?thesis
          using below r by simp
      next
        case False
        with kg have "length g - 1 = k"
          by simp
        moreover have "nv mod 10 \<noteq> 0"
          using True nvpos by (simp add: div_eq_0_iff) 
        ultimately show ?thesis
          using kg by (simp add: r canonical_def)
      qed
    next
      case False
      with nv0 have cpos: "0 < nv div 10"
        by simp
      have "canonical (g[k := nv mod 10]) \<or>
          (0 < nv div 10 \<and> int (length (g[k := nv mod 10])) \<le> idx + 1)"
      proof (cases "Suc k < length g")
        case True
        then show ?thesis
          using below by simp
      next
        case False
        with kg have "length g = Suc k"
          by simp
        then show ?thesis
          using cpos "1.prems" by (simp add: k_def)
      qed
      then show ?thesis
        using "1.IH"[OF nneg \<open>v \<noteq> 0\<close> ii, of nv] vg' nv0 "1.prems" rec
        by (simp add: g_def nv_def)
    qed
  qed
qed

lemma add_at_depth_bound:
  "valid_digits ds \<Longrightarrow> 0 \<le> idx \<Longrightarrow> 0 \<le> v \<Longrightarrow> add_at ds idx v = Inr r \<Longrightarrow>
   add_at_depth ds idx v \<le> length r - nat idx"
proof (induction ds idx v rule: add_at.induct)
  case (1 ds idx v)
  show ?case
  proof (cases "v = 0")
    case True
    then show ?thesis by simp
  next
    case False
    with "1.prems" have pos: "0 < v" and nneg: "\<not> v < 0"
      by simp_all
    define g where "g = grow ds idx"
    define k where "k = nat idx"
    define nv where "nv = g ! k + v"
    have kg: "k < length g"
      using "1.prems" by (simp add: g_def k_def length_grow)
    have vg: "valid_digits g"
      using "1.prems" by (simp add: g_def valid_digits_grow)
    have cell: "0 \<le> g ! k"
      using valid_digits_nth[OF vg kg] by simp
    have nv0: "0 \<le> nv div 10"
      using cell pos by (simp add: nv_def)
    have vg': "valid_digits (g[k := nv mod 10])"
      using vg by (rule valid_digits_update) simp_all
    have ii: "item_index (length (grow ds idx)) idx = Some k"
      using "1.prems" by (simp add: k_def item_index_nonneg)
    have rec: "add_at (g[k := nv mod 10]) (idx + 1) (nv div 10) = Inr r"
      using "1.prems" pos by (simp add: add_at_pos g_def k_def nv_def)
    have "add_at_depth (g[k := nv mod 10]) (idx + 1) (nv div 10) \<le> length r - nat (idx + 1)"
      using "1.IH"[OF nneg False ii, of nv] vg' nv0 "1.prems" rec
      by (simp add: g_def nv_def)
    moreover have "k < length r"
      using add_at_value[OF "1.prems"(1-3)] "1.prems"(4) pos by (auto simp: k_def)
    moreover have "nat (idx + 1) = Suc k"
      using "1.prems" by (simp add: k_def)
    ultimately have "Suc (add_at_depth (g[k := nv mod 10]) (idx + 1) (nv div 10)) \<le> length r - k"
      by linarith
    then show ?thesis
      using pos "1.prems" by (simp add: add_at_depth_pos g_def k_def nv_def)
  qed
qed

lemma digits_loop_length: "length (digits_loop n v ds) = length ds + n"
  by (induction n v ds rule: digits_loop.induct) simp_all

lemma BigInt_init_value_cases:
  "BigInt_init lg rnd (Some v) dc = Inl NotImplementedError \<or> (\<exists>r. BigInt_init lg rnd (Some v) dc = Inr r)"
  by (simp add: BigInt_init_def Let_def)

lemma add_at_eval:
  "add_at ds (int i) v =
     (if v < 0 then Inl NotImplementedError
      else if v = 0 then Inr ds
      else add_at ((ds @ replicate (Suc i - length ds) 0)
                     [i := ((ds @ replicate (Suc i - length ds) 0) ! i + v) mod 10])
             (int (Suc i)) (((ds @ replicate (Suc i - length ds) 0) ! i + v) div 10))"
proof -
  have "nat (int i + 1 - int (length ds)) = Suc i - length ds"
    by linarith
  then show ?thesis
    by (auto simp: add_at_neg add_at_pos[of v "int i"] grow_eq add.commute)
qed

lemma add_at_depth_eval:
  "add_at_depth ds (int i) v =
     (if v \<le> 0 then 0
      else Suc (add_at_depth ((ds @ replicate (Suc i - length ds) 0)
                     [i := ((ds @ replicate (Suc i - length ds) 0) ! i + v) mod 10])
             (int (Suc i)) (((ds @ replicate (Suc i - length ds) 0) ! i + v) div 10)))"
proof -
  have "nat (int i + 1 - int (length ds)) = Suc i - length ds"
    by linarith
  moreover have "v \<le> 0 \<Longrightarrow> add_at_depth ds (int i) v = 0"
    by (subst add_at_depth.simps) simp
  ultimately show ?thesis
    by (auto simp: add_at_depth_pos[of v "int i"] grow_eq add.commute)
qed

section \<open>Errors of construction and of \<open>add_at\<close>\<close>

text \<open>
  C6. Construction from a native integer raises the invalid-argument error (in the code,
  \<open>NotImplementedError\<close>) exactly when the value is negative, whatever the digit count, and
  returns a value otherwise. On a value whose cells are digits, \<open>add_at\<close> raises that error
  exactly when the amount is negative, and returns for every non-negative index and amount.
\<close>

theorem invalid_argument_errors:
  assumes "valid_digits ds"
  shows "(BigInt_init lg rnd (Some v) dc = Inl NotImplementedError \<longleftrightarrow> v < 0) \<and>
    (0 \<le> v \<longrightarrow> (\<exists>r. BigInt_init lg rnd (Some v) dc = Inr r)) \<and>
    (add_at ds idx a = Inl NotImplementedError \<longleftrightarrow> a < 0) \<and>
    (0 \<le> idx \<and> 0 \<le> a \<longrightarrow> (\<exists>r. add_at ds idx a = Inr r))"
proof -
  have "BigInt_init lg rnd (Some v) dc = Inl NotImplementedError \<longleftrightarrow> v < 0"
    by (simp add: BigInt_init_def Let_def)
  moreover have "0 \<le> v \<longrightarrow> (\<exists>r. BigInt_init lg rnd (Some v) dc = Inr r)"
    by (simp add: BigInt_init_def Let_def)
  moreover have "add_at ds idx a = Inl NotImplementedError \<longleftrightarrow> a < 0"
    using add_at_no_NotImplementedError[OF assms, of a idx] add_at_neg[of a ds idx]
    by (cases "a < 0") simp_all
  moreover have "0 \<le> idx \<and> 0 \<le> a \<longrightarrow> (\<exists>r. add_at ds idx a = Inr r)"
    using add_at_value[OF assms, of idx a] by blast
  ultimately show ?thesis
    by blast
qed

theorem invalid_argument_errors_witness:
  "valid_digits [9] \<and>
   BigInt_init log10_floor zero_draws (Some (- 3)) None = Inl NotImplementedError \<and>
   BigInt_init log10_floor zero_draws (Some 42) None = Inr [2, 4] \<and>
   add_at [9] 0 (- 1) = Inl NotImplementedError \<and>
   add_at [9] 0 1 = Inr [0, 1]"
proof -
  have v: "valid_digits [9]"
    by (simp add: valid_digits_def)
  have "BigInt_init log10_floor zero_draws (Some 42) None = Inr [2, 4]"
    by (simp add: BigInt_init_def log10_floor_def compute_floorlog numeral_2_eq_2 Let_def)
  moreover have "add_at [9] 0 1 = Inr [0, 1]"
    using add_at_eval[of _ 0] add_at_eval[of _ 1] by simp
  ultimately show ?thesis
    using v invalid_argument_errors[OF v, of log10_floor zero_draws "- 3" None 0 "- 1"]
    by simp
qed

section \<open>Termination of the carry propagation\<close>

text \<open>
  C8. \<open>add_at\<close> is a total function: its recursion is well-founded (the termination proof
  above). On a value whose cells are digits, for every non-negative index and amount, it
  returns, which it only does through the branch \<open>value == 0\<close>, and the number of nested
  recursive calls it makes is at most the digit count of the result.
\<close>

theorem add_at_terminates:
  assumes "valid_digits ds" and "0 \<le> idx" and "0 \<le> v"
  shows "\<exists>r. add_at ds idx v = Inr r \<and> add_at_depth ds idx v \<le> length r"
proof -
  from add_at_value[OF assms] obtain r where r: "add_at ds idx v = Inr r"
    by blast
  from add_at_depth_bound[OF assms r] have "add_at_depth ds idx v \<le> length r"
    by simp
  with r show ?thesis
    by blast
qed

theorem add_at_terminates_witness:
  "valid_digits [5, 9] \<and> add_at [5, 9] 0 7 = Inr [2, 0, 1] \<and> add_at_depth [5, 9] 0 7 = 3 \<and>
   add_at_depth [5, 9] 0 7 \<le> length [2, 0, 1 :: int]"
proof -
  have v: "valid_digits [5, 9]"
    by (simp add: valid_digits_def)
  have r: "add_at [5, 9] 0 7 = Inr [2, 0, 1]"
    using add_at_eval[of _ 0] add_at_eval[of _ 1] add_at_eval[of _ 2] add_at_eval[of _ 3] by simp
  have d: "add_at_depth [5, 9] 0 7 = 3"
    using add_at_depth_eval[of _ 0] add_at_depth_eval[of _ 1] add_at_depth_eval[of _ 2]
      add_at_depth_eval[of _ 3] by simp
  from add_at_terminates[OF v, of 0 7] r have "add_at_depth [5, 9] 0 7 \<le> length [2, 0, 1 :: int]"
    by auto
  with v r d show ?thesis
    by blast
qed

section \<open>Canonical form under \<open>add_at\<close>\<close>

text \<open>
  C10. If the cells of a value are digits and its most significant cell is non-zero (or it
  has no cell), then for every non-negative index and amount \<open>add_at\<close> returns a value whose
  most significant cell is non-zero whenever it has a cell; in particular, when the store
  has grown, the cell at the new highest index is non-zero.
\<close>

theorem add_at_preserves_canonical:
  assumes "valid_digits ds" and "canonical ds" and "0 \<le> idx" and "0 \<le> v"
  shows "\<exists>r. add_at ds idx v = Inr r \<and> canonical r \<and>
    (length ds < length r \<longrightarrow> r ! (length r - 1) \<noteq> 0)"
proof -
  from add_at_value[OF assms(1,3,4)] obtain r where r: "add_at ds idx v = Inr r"
    by blast
  have "canonical r"
    using add_at_canonical[OF assms(1,3,4) _ r] assms(2) by simp
  then have "length ds < length r \<longrightarrow> r ! (length r - 1) \<noteq> 0"
    by (auto simp: canonical_def)
  with r \<open>canonical r\<close> show ?thesis
    by blast
qed

theorem add_at_preserves_canonical_witness:
  "valid_digits [9, 9] \<and> canonical [9, 9] \<and> add_at [9, 9] 0 1 = Inr [0, 0, 1] \<and>
   canonical [0, 0, 1] \<and> [0, 0, 1 :: int] ! (length [0, 0, 1 :: int] - 1) \<noteq> 0"
proof -
  have v: "valid_digits [9, 9]" and c: "canonical [9, 9]"
    by (simp_all add: valid_digits_def canonical_def)
  have r: "add_at [9, 9] 0 1 = Inr [0, 0, 1]"
    using add_at_eval[of _ 0] add_at_eval[of _ 1] add_at_eval[of _ 2] add_at_eval[of _ 3] by simp
  from add_at_preserves_canonical[OF v c, of 0 1] r
  have "canonical [0, 0, 1] \<and> [0, 0, 1 :: int] ! (length [0, 0, 1 :: int] - 1) \<noteq> 0"
    by auto
  with v c r show ?thesis
    by blast
qed

section \<open>Round trip through a native integer\<close>

lemma digits_loop_int:
  "BigInt_int (digits_loop n v ds) = BigInt_int ds + (v mod 10 ^ n) * 10 ^ length ds"
proof (induction n arbitrary: v ds)
  case 0
  show ?case by simp
next
  case (Suc n)
  have "v mod 10 ^ Suc n = 10 * (v div 10 mod 10 ^ n) + v mod 10"
    using zmod_zmult2_eq[of "10 ^ n" v 10] by simp
  then show ?case
    by (simp add: Suc.IH BigInt_int_snoc algebra_simps)
qed

lemma log10_floor_bounds:
  assumes "0 < v"
  shows "10 ^ nat (log10_floor v) \<le> v" and "v < 10 ^ nat (log10_floor v + 1)"
proof -
  from assms have n: "0 < nat v"
    by simp
  have f: "0 < floorlog 10 (nat v)"
    using n floorlog_eq_zero_iff[of 10 "nat v"] by (cases "floorlog 10 (nat v)") simp_all
  from floorlog_bounds[OF n, of 10]
  have b: "10 ^ (floorlog 10 (nat v) - 1) \<le> nat v" "nat v < 10 ^ floorlog 10 (nat v)"
    by simp_all
  have e1: "nat (log10_floor v) = floorlog 10 (nat v) - 1"
    using f by (simp add: log10_floor_def)
  have e2: "nat (log10_floor v + 1) = floorlog 10 (nat v)"
    by (simp add: log10_floor_def)
  have "int (10 ^ (floorlog 10 (nat v) - 1)) \<le> int (nat v)"
    using b(1) by (rule iffD2[OF of_nat_le_iff])
  then show "10 ^ nat (log10_floor v) \<le> v"
    using assms by (simp add: e1)
  have "int (nat v) < int (10 ^ floorlog 10 (nat v))"
    using b(2) by (rule iffD2[OF of_nat_less_iff])
  then show "v < 10 ^ nat (log10_floor v + 1)"
    using assms by (simp add: e2)
qed

lemma log10_floor_eq:
  assumes "0 < v"
  shows "log10_floor v = \<lfloor>log 10 (real_of_int v)\<rfloor>"
proof -
  from assms have "0 < nat v" by simp
  then have "int (floorlog 10 (nat v)) = \<lfloor>log 10 (real (nat v))\<rfloor> + 1"
  proof -
    have "1 \<le> real (nat v)" using \<open>0 < nat v\<close> by simp
    then have "0 \<le> log 10 (real (nat v))" by simp
    then have "0 \<le> \<lfloor>log 10 (real (nat v))\<rfloor>" by simp
    then show ?thesis
      using \<open>0 < nat v\<close> by (simp add: floorlog_def)
  qed
  moreover have "real (nat v) = real_of_int v"
    using assms by simp
  ultimately show ?thesis
    by (simp add: log10_floor_def)
qed

text \<open>
  C4. For every non-negative native integer \<open>v\<close>, the value constructed from \<open>v\<close> with no
  digit count converts back to \<open>v\<close>. The number of cells taken is \<open>int(math.log10(v)) + 1\<close>;
  the theorem holds for every result \<open>lg v\<close> of that library call which does not fall short of
  the decimal length of \<open>v\<close>, as the exact logarithm \<open>log10_floor\<close> does (\<open>log10_floor_bounds\<close>).
\<close>

theorem integer_roundtrip:
  assumes "0 \<le> v" and "v < 10 ^ nat (lg v + 1)"
  shows "\<exists>x. BigInt_init lg rnd (Some v) None = Inr x \<and> BigInt_int x = v"
  using assms by (simp add: BigInt_init_def Let_def digits_loop_int)

theorem integer_roundtrip_witness:
  "(0::int) \<le> 90210 \<and> (90210::int) < 10 ^ nat (log10_floor 90210 + 1) \<and>
   BigInt_init log10_floor zero_draws (Some 90210) None = Inr [0, 1, 2, 0, 9] \<and>
   BigInt_int [0, 1, 2, 0, 9] = 90210"
proof -
  have lg: "log10_floor 90210 = 4"
    by (simp add: log10_floor_def compute_floorlog)
  have h: "(90210::int) < 10 ^ nat (log10_floor 90210 + 1)"
    by (simp add: lg)
  have x: "BigInt_init log10_floor zero_draws (Some 90210) None = Inr [0, 1, 2, 0, 9]"
    by (simp add: BigInt_init_def lg Let_def numeral_eq_Suc)
  from integer_roundtrip[of 90210 log10_floor zero_draws] h x have "BigInt_int [0, 1, 2, 0, 9] = 90210"
    by simp
  with h x show ?thesis
    by simp
qed

section \<open>String conversion\<close>

lemma foldl_prepend:
  "foldl (\<lambda>s d. f d @ s) acc ds = concat (map f (rev ds)) @ acc"
  by (induction ds arbitrary: acc) simp_all

lemma nat_str_digit: "n < 10 \<Longrightarrow> nat_str n = [''0123456789'' ! n]"
  by (subst nat_str.simps) simp

lemma py_str_int_digit: "0 \<le> d \<Longrightarrow> d \<le> 9 \<Longrightarrow> py_str_int d = [''0123456789'' ! nat d]"
  by (simp add: py_str_int_def nat_str_digit)

text \<open>
  C9. The string of a value is the concatenation of the decimal forms of its cells, from the
  most significant cell to the least significant one, with nothing between them; for a
  value whose cells are digits that is one digit character per cell, and no sign. The empty
  store gives the empty string.
\<close>

theorem string_conversion:
  "BigInt_str [] = '''' \<and>
   BigInt_str ds = concat (map py_str_int (rev ds)) \<and>
   (valid_digits ds \<longrightarrow> BigInt_str ds = map (\<lambda>d. ''0123456789'' ! nat d) (rev ds))"
proof -
  have c: "BigInt_str ds = concat (map py_str_int (rev ds))" for ds
    by (simp add: BigInt_str_def foldl_prepend)
  have "concat (map py_str_int (rev ds)) = map (\<lambda>d. ''0123456789'' ! nat d) (rev ds)"
    if "valid_digits ds"
    using that by (induction ds) (simp_all add: valid_digits_def py_str_int_digit)
  with c show ?thesis
    by (simp add: BigInt_str_def)
qed

theorem string_conversion_witness:
  "valid_digits [4, 0, 7] \<and> BigInt_str [4, 0, 7] = ''704''"
proof -
  have v: "valid_digits [4, 0, 7]"
    by (simp add: valid_digits_def)
  from string_conversion[of "[4, 0, 7]", THEN conjunct2, THEN conjunct2] v
  have "BigInt_str [4, 0, 7] = ''704''"
    by simp
  with v show ?thesis
    by simp
qed

section \<open>Ordering\<close>

lemma gt_loop_rev_upt:
  "gt_loop xs ys (rev [0..<n]) g \<longleftrightarrow>
     (\<exists>i<n. xs ! i > ys ! i \<and> (\<forall>j. i < j \<and> j < n \<longrightarrow> xs ! j = ys ! j)) \<or>
     (g \<and> n = 0)"
proof (induction n arbitrary: g)
  case 0
  show ?case by simp
next
  case (Suc n)
  consider "xs ! n > ys ! n" | "xs ! n < ys ! n" | "xs ! n = ys ! n"
    by linarith
  then show ?case
  proof cases
    case 1
    then have "gt_loop xs ys (rev [0..<Suc n]) g"
      by simp
    moreover have "\<exists>i<Suc n. xs ! i > ys ! i \<and> (\<forall>j. i < j \<and> j < Suc n \<longrightarrow> xs ! j = ys ! j)"
      using 1 by (intro exI[of _ n]) simp
    ultimately show ?thesis
      by blast
  next
    case 2
    then have "\<not> gt_loop xs ys (rev [0..<Suc n]) g"
      by simp
    moreover have "\<not> (\<exists>i<Suc n. xs ! i > ys ! i \<and> (\<forall>j. i < j \<and> j < Suc n \<longrightarrow> xs ! j = ys ! j))"
    proof
      assume "\<exists>i<Suc n. xs ! i > ys ! i \<and> (\<forall>j. i < j \<and> j < Suc n \<longrightarrow> xs ! j = ys ! j)"
      then obtain i where i: "i < Suc n" "xs ! i > ys ! i"
        "\<forall>j. i < j \<and> j < Suc n \<longrightarrow> xs ! j = ys ! j"
        by blast
      show False
      proof (cases "i = n")
        case True
        with i(2) 2 show False by simp
      next
        case False
        with i(1) have "i < n" by simp
        with i(3) have "xs ! n = ys ! n" by simp
        with 2 show False by simp
      qed
    qed
    ultimately show ?thesis
      by blast
  next
    case 3
    then have "gt_loop xs ys (rev [0..<Suc n]) g = gt_loop xs ys (rev [0..<n]) False"
      by simp
    also have "\<dots> \<longleftrightarrow> (\<exists>i<n. xs ! i > ys ! i \<and> (\<forall>j. i < j \<and> j < n \<longrightarrow> xs ! j = ys ! j))"
      by (simp add: Suc.IH)
    also have "\<dots> \<longleftrightarrow> (\<exists>i<Suc n. xs ! i > ys ! i \<and> (\<forall>j. i < j \<and> j < Suc n \<longrightarrow> xs ! j = ys ! j))"
      using 3 by (auto simp: less_Suc_eq)
    finally show ?thesis
      by simp
  qed
qed

text \<open>
  C7. \<open>x > y\<close> holds exactly when \<open>x\<close> has more cells than \<open>y\<close>, or both have the same number
  of cells and, at the most significant position where they differ, the digit of \<open>x\<close> is
  the larger one. In particular a value with more cells is greater whatever its digits, and
  of two values with the same cells neither is greater than the other.
\<close>

theorem greater_than_characterisation:
  "BigInt_gt xs (BigIntObj ys) =
     Inr (length ys < length xs \<or>
          (length xs = length ys \<and>
           (\<exists>i<length xs. ys ! i < xs ! i \<and> (\<forall>j. i < j \<and> j < length xs \<longrightarrow> xs ! j = ys ! j)))) \<and>
   (length ys < length xs \<longrightarrow> BigInt_gt xs (BigIntObj ys) = Inr True) \<and>
   (length xs = length ys \<and> (\<forall>i<length xs. xs ! i = ys ! i) \<longrightarrow>
      BigInt_gt xs (BigIntObj ys) = Inr False \<and> BigInt_gt ys (BigIntObj xs) = Inr False)"
proof -
  have main: "BigInt_gt xs (BigIntObj ys) =
     Inr (length ys < length xs \<or>
          (length xs = length ys \<and>
           (\<exists>i<length xs. ys ! i < xs ! i \<and> (\<forall>j. i < j \<and> j < length xs \<longrightarrow> xs ! j = ys ! j))))"
    for xs ys
  proof (cases "length xs = length ys")
    case True
    then show ?thesis
      by (simp add: BigInt_gt_def BigInt_len_def gt_loop_rev_upt)
  next
    case False
    then show ?thesis
      by (simp add: BigInt_gt_def BigInt_len_def)
  qed
  have longer: "BigInt_gt xs (BigIntObj ys) = Inr True" if "length ys < length xs"
    using that by (simp add: main)
  have same: "BigInt_gt xs (BigIntObj ys) = Inr False \<and> BigInt_gt ys (BigIntObj xs) = Inr False"
    if "length xs = length ys" and "\<forall>i<length xs. xs ! i = ys ! i"
    using that by (simp add: main)
  from main longer same show ?thesis
    by blast
qed

theorem greater_than_characterisation_witness:
  "length [9, 9 :: int] < length [0, 0, 1 :: int] \<and> BigInt_gt [0, 0, 1] (BigIntObj [9, 9]) = Inr True \<and>
   BigInt_gt [9, 9] (BigIntObj [0, 0, 1]) = Inr False \<and>
   BigInt_gt [3, 7, 2] (BigIntObj [8, 6, 2]) = Inr True \<and>
   BigInt_gt [8, 6, 2] (BigIntObj [3, 7, 2]) = Inr False \<and>
   BigInt_gt [3, 7, 2] (BigIntObj [3, 7, 2]) = Inr False"
proof -
  have l: "length [9, 9 :: int] < length [0, 0, 1 :: int]"
    by simp
  from greater_than_characterisation[of "[0, 0, 1]" "[9, 9]"] l
  have a: "BigInt_gt [0, 0, 1] (BigIntObj [9, 9]) = Inr True"
    by blast
  have e: "length [3, 7, 2 :: int] = length [3, 7, 2 :: int] \<and>
      (\<forall>i<length [3, 7, 2 :: int]. [3, 7, 2 :: int] ! i = [3, 7, 2] ! i)"
    by simp
  from greater_than_characterisation[of "[3, 7, 2]" "[3, 7, 2]"] e
  have b: "BigInt_gt [3, 7, 2] (BigIntObj [3, 7, 2]) = Inr False"
    by blast
  have c: "BigInt_gt [9, 9] (BigIntObj [0, 0, 1]) = Inr False"
    "BigInt_gt [3, 7, 2] (BigIntObj [8, 6, 2]) = Inr True"
    "BigInt_gt [8, 6, 2] (BigIntObj [3, 7, 2]) = Inr False"
    by (simp_all add: BigInt_gt_def BigInt_len_def upt_rec)
  from l a b c show ?thesis
    by blast
qed

section \<open>Addition and multiplication\<close>

lemma add_at_nat:
  assumes "valid_digits ds" and "0 \<le> v"
  shows "\<exists>r. add_at ds (int i) v = Inr r \<and> valid_digits r \<and> (canonical ds \<longrightarrow> canonical r) \<and>
    BigInt_int r = BigInt_int ds + v * 10 ^ i"
proof -
  from add_at_value[OF assms(1) _ assms(2), of "int i"]
  obtain r where r: "add_at ds (int i) v = Inr r" "valid_digits r"
    "BigInt_int r = BigInt_int ds + v * 10 ^ i"
    by auto
  have "canonical r" if "canonical ds"
    using add_at_canonical[OF assms(1) _ assms(2) _ r(1)] that by simp
  with r show ?thesis
    by blast
qed

text \<open>The digit an operand contributes at a position, 0 beyond its end.\<close>

lemma BigInt_int_padded:
  assumes "length xs \<le> n"
  shows "(\<Sum>i\<leftarrow>[0..<n]. (if i < length xs then xs ! i else 0) * 10 ^ i) = BigInt_int xs"
proof -
  have "(\<Sum>i\<leftarrow>[0..<n]. (if i < length xs then xs ! i else 0) * 10 ^ i)
      = (\<Sum>i = 0..<n. (if i < length xs then xs ! i else 0) * 10 ^ i)"
    by (simp add: interv_sum_list_conv_sum_set_nat)
  also have "\<dots> = (\<Sum>i = 0..<length xs. (if i < length xs then xs ! i else 0) * 10 ^ i)"
    using assms by (intro sum.mono_neutral_right) auto
  also have "\<dots> = (\<Sum>i<length xs. xs ! i * 10 ^ i)"
    by (simp add: atLeast0LessThan)
  finally show ?thesis
    by (simp add: BigInt_int_sum)
qed

lemma add_loop_correct:
  assumes "valid_digits xs" and "valid_digits ys"
  shows "valid_digits res \<Longrightarrow>
    \<exists>r. add_loop xs ys is res = Inr r \<and> valid_digits r \<and> (canonical res \<longrightarrow> canonical r) \<and>
      BigInt_int r = BigInt_int res +
        (\<Sum>i\<leftarrow>is. (if i < length xs then xs ! i else 0) * 10 ^ i) +
        (\<Sum>i\<leftarrow>is. (if i < length ys then ys ! i else 0) * 10 ^ i)"
proof (induction "is" arbitrary: res)
  case Nil
  then show ?case by simp
next
  case (Cons i "is")
  define a where "a = (if i < length xs then xs ! i else 0)"
  define b where "b = (if i < length ys then ys ! i else 0)"
  have "0 \<le> a" "0 \<le> b"
    using assms valid_digits_nth[of xs i] valid_digits_nth[of ys i] by (simp_all add: a_def b_def)
  then have "0 \<le> a + b"
    by simp
  from add_at_nat[OF Cons.prems this, of i]
  obtain r1 where r1: "add_at res (int i) (a + b) = Inr r1" "valid_digits r1"
    "canonical res \<longrightarrow> canonical r1" "BigInt_int r1 = BigInt_int res + (a + b) * 10 ^ i"
    by blast
  from Cons.IH[OF r1(2)]
  obtain r where r: "add_loop xs ys is r1 = Inr r" "valid_digits r" "canonical r1 \<longrightarrow> canonical r"
    "BigInt_int r = BigInt_int r1 +
        (\<Sum>i\<leftarrow>is. (if i < length xs then xs ! i else 0) * 10 ^ i) +
        (\<Sum>i\<leftarrow>is. (if i < length ys then ys ! i else 0) * 10 ^ i)"
    by blast
  have "add_loop xs ys (i # is) res = Inr r"
    using r1(1) r(1) by (simp add: a_def b_def BigInt_len_def)
  moreover have "BigInt_int r = BigInt_int res +
        (\<Sum>i\<leftarrow>i # is. (if i < length xs then xs ! i else 0) * 10 ^ i) +
        (\<Sum>i\<leftarrow>i # is. (if i < length ys then ys ! i else 0) * 10 ^ i)"
    using r(4) r1(4) by (simp add: a_def b_def algebra_simps)
  ultimately show ?case
    using r(2,3) r1(3) by blast
qed

lemma BigInt_add_correct:
  assumes "valid_digits xs" and "valid_digits ys"
  shows "\<exists>r. BigInt_add xs (BigIntObj ys) = Inr r \<and> valid_digits r \<and> canonical r \<and>
    BigInt_int r = BigInt_int xs + BigInt_int ys"
proof -
  have c: "canonical []"
    by (simp add: canonical_def)
  from add_loop_correct[OF assms valid_digits_Nil, of "[0..<max (length xs) (length ys)]"] c
  show ?thesis
    by (simp add: BigInt_add_def BigInt_int_padded)
qed

lemma mul_row_correct:
  assumes "valid_digits xs" and "0 \<le> ys ! j"
  shows "k \<le> length xs \<Longrightarrow> valid_digits res \<Longrightarrow> 0 \<le> carry \<Longrightarrow>
    \<exists>r c. mul_row xs ys j [k..<length xs] res carry = Inr (r, c) \<and> valid_digits r \<and>
      (canonical res \<longrightarrow> canonical r) \<and> 0 \<le> c \<and>
      BigInt_int r + c * 10 ^ (j + length xs) =
        BigInt_int res + carry * 10 ^ (j + k) + (\<Sum>i\<leftarrow>[k..<length xs]. xs ! i * ys ! j * 10 ^ (j + i))"
proof (induction "length xs - k" arbitrary: k res carry)
  case 0
  then have "k = length xs"
    by simp
  with 0 show ?case
    by simp
next
  case (Suc m)
  then have k: "k < length xs" and m: "m = length xs - Suc k"
    by simp_all
  define product where "product = xs ! k * ys ! j + carry"
  have "0 \<le> xs ! k"
    using valid_digits_nth[OF assms(1) k] by simp
  then have p0: "0 \<le> product"
    using assms(2) Suc.prems(3) by (simp add: product_def)
  then have "0 \<le> product mod 10" and c0: "0 \<le> product div 10"
    by simp_all
  from add_at_nat[OF Suc.prems(2) this(1), of "j + k"]
  obtain r1 where r1: "add_at res (int j + int k) (product mod 10) = Inr r1" "valid_digits r1"
    "canonical res \<longrightarrow> canonical r1"
    "BigInt_int r1 = BigInt_int res + product mod 10 * 10 ^ (j + k)"
    by auto
  from Suc.hyps(1)[OF m _ r1(2) c0] k
  obtain r c where r: "mul_row xs ys j [Suc k..<length xs] r1 (product div 10) = Inr (r, c)"
    "valid_digits r" "canonical r1 \<longrightarrow> canonical r" "0 \<le> c"
    "BigInt_int r + c * 10 ^ (j + length xs) =
        BigInt_int r1 + product div 10 * 10 ^ (j + Suc k) +
        (\<Sum>i\<leftarrow>[Suc k..<length xs]. xs ! i * ys ! j * 10 ^ (j + i))"
    by auto
  have u: "[k..<length xs] = k # [Suc k..<length xs]"
    using k by (simp add: upt_rec)
  have run: "mul_row xs ys j [k..<length xs] res carry = Inr (r, c)"
    using r1(1) r(1) by (simp add: u product_def Let_def)
  have "product mod 10 * 10 ^ (j + k) + product div 10 * 10 ^ (j + Suc k)
      = (product mod 10 + 10 * (product div 10)) * 10 ^ (j + k)"
    by (simp only: algebra_simps power_Suc add_Suc_right)
  also have "\<dots> = (xs ! k * ys ! j + carry) * 10 ^ (j + k)"
    by (simp add: product_def)
  finally have "product mod 10 * 10 ^ (j + k) + product div 10 * 10 ^ (j + Suc k)
      = xs ! k * ys ! j * 10 ^ (j + k) + carry * 10 ^ (j + k)"
    by (simp add: algebra_simps)
  with r(5) r1(4) have "BigInt_int r + c * 10 ^ (j + length xs) =
        BigInt_int res + carry * 10 ^ (j + k) +
        (\<Sum>i\<leftarrow>[k..<length xs]. xs ! i * ys ! j * 10 ^ (j + i))"
    by (simp add: u)
  with run r(2,3,4) r1(3) show ?case
    by blast
qed

lemma row_sum: "(\<Sum>i\<leftarrow>[0..<length xs]. xs ! i * y * 10 ^ (j + i)) = BigInt_int xs * y * 10 ^ j"
proof -
  have "(\<Sum>i\<leftarrow>[0..<length xs]. xs ! i * y * 10 ^ (j + i))
      = (\<Sum>i<length xs. (xs ! i * 10 ^ i) * (y * 10 ^ j))"
    by (simp add: interv_sum_list_conv_sum_set_nat atLeast0LessThan power_add mult_ac)
  also have "\<dots> = BigInt_int xs * (y * 10 ^ j)"
    by (simp add: BigInt_int_sum sum_distrib_right)
  finally show ?thesis
    by (simp add: mult_ac)
qed

lemma mul_loop_correct:
  assumes "valid_digits xs" and "valid_digits ys"
  shows "\<forall>j\<in>set js. j < length ys \<Longrightarrow> valid_digits res \<Longrightarrow>
    \<exists>r. mul_loop xs ys js res = Inr r \<and> valid_digits r \<and> (canonical res \<longrightarrow> canonical r) \<and>
      BigInt_int r = BigInt_int res + (\<Sum>j\<leftarrow>js. BigInt_int xs * ys ! j * 10 ^ j)"
proof (induction js arbitrary: res)
  case Nil
  then show ?case by simp
next
  case (Cons j js)
  then have j: "j < length ys" and js: "\<forall>j\<in>set js. j < length ys"
    by simp_all
  have y0: "0 \<le> ys ! j"
    using valid_digits_nth[OF assms(2) j] by simp
  from mul_row_correct[OF assms(1) y0 _ Cons.prems(2), of 0 0]
  obtain r1 c where r1: "mul_row xs ys j [0..<length xs] res 0 = Inr (r1, c)" "valid_digits r1"
    "canonical res \<longrightarrow> canonical r1" "0 \<le> c"
    "BigInt_int r1 + c * 10 ^ (j + length xs) = BigInt_int res + BigInt_int xs * ys ! j * 10 ^ j"
    by (auto simp: row_sum)
  have "\<exists>r2. (if c \<noteq> 0 then add_at r1 (int j + BigInt_len xs) c else Inr r1) = Inr r2 \<and>
      valid_digits r2 \<and> (canonical r1 \<longrightarrow> canonical r2) \<and>
      BigInt_int r2 = BigInt_int r1 + c * 10 ^ (j + length xs)"
  proof (cases "c = 0")
    case True
    then show ?thesis
      using r1(2) by simp
  next
    case False
    then show ?thesis
      using add_at_nat[OF r1(2,4), of "j + length xs"] by (simp add: BigInt_len_def)
  qed
  then obtain r2 where r2: "(if c \<noteq> 0 then add_at r1 (int j + BigInt_len xs) c else Inr r1) = Inr r2"
    "valid_digits r2" "canonical r1 \<longrightarrow> canonical r2"
    "BigInt_int r2 = BigInt_int r1 + c * 10 ^ (j + length xs)"
    by blast
  from Cons.IH[OF js r2(2)]
  obtain r where r: "mul_loop xs ys js r2 = Inr r" "valid_digits r" "canonical r2 \<longrightarrow> canonical r"
    "BigInt_int r = BigInt_int r2 + (\<Sum>j\<leftarrow>js. BigInt_int xs * ys ! j * 10 ^ j)"
    by blast
  have "mul_loop xs ys (j # js) res = Inr r"
    using r1(1) r2(1) r(1) by (cases "c = 0") simp_all
  moreover have "BigInt_int r = BigInt_int res + (\<Sum>j\<leftarrow>j # js. BigInt_int xs * ys ! j * 10 ^ j)"
    using r(4) r2(4) r1(5) by simp
  ultimately show ?case
    using r(2,3) r2(3) r1(3) by blast
qed

lemma BigInt_mul_correct:
  assumes "valid_digits xs" and "valid_digits ys"
  shows "\<exists>r. BigInt_mul xs (BigIntObj ys) = Inr r \<and> valid_digits r \<and> canonical r \<and>
    BigInt_int r = BigInt_int xs * BigInt_int ys"
proof -
  have c: "canonical []"
    by (simp add: canonical_def)
  have "(\<Sum>j\<leftarrow>[0..<length ys]. BigInt_int xs * ys ! j * 10 ^ j) = BigInt_int xs * BigInt_int ys"
    by (simp add: interv_sum_list_conv_sum_set_nat atLeast0LessThan BigInt_int_sum[of ys]
        sum_distrib_left mult_ac)
  with mul_loop_correct[OF assms _ valid_digits_Nil, of "[0..<length ys]"] c
  show ?thesis
    by (simp add: BigInt_mul_def)
qed

section \<open>The digits written by the constructor\<close>

lemma digits_loop_eq:
  "digits_loop n v ds = ds @ map (\<lambda>i. v div 10 ^ i mod 10) [0..<n]"
proof (induction n arbitrary: v ds)
  case 0
  show ?case by simp
next
  case (Suc n)
  have "map (\<lambda>i. v div 10 ^ i mod 10) [0..<Suc n]
      = (v mod 10) # map (\<lambda>i. v div 10 ^ Suc i mod 10) [0..<n]"
    by (simp add: upt_conv_Cons map_Suc_upt[symmetric] del: upt_Suc)
  moreover have "v div 10 div 10 ^ i = v div 10 ^ Suc i" for i
    by (simp add: zdiv_zmult2_eq)
  ultimately show ?case
    by (simp add: Suc.IH del: upt_Suc power_Suc)
qed

lemma digits_loop_valid: "valid_digits (digits_loop n v [])"
  by (auto simp: digits_loop_eq valid_digits_def)

lemma BigInt_init_valid:
  "BigInt_init lg rnd (Some v) dc = Inr x \<Longrightarrow> valid_digits x"
  by (auto simp: BigInt_init_def Let_def digits_loop_valid split: if_splits)

lemma digits_loop_top:
  "0 < n \<Longrightarrow> digits_loop n v [] ! (length (digits_loop n v []) - 1) = v div 10 ^ (n - 1) mod 10"
  by (simp add: digits_loop_eq)

lemma log10_floor_nonneg: "0 < v \<Longrightarrow> 0 \<le> log10_floor v"
  using floorlog_eq_zero_iff[of 10 "nat v"]
  by (cases "floorlog 10 (nat v)") (simp_all add: log10_floor_def)

lemma digit_nonzero: "0 < q \<Longrightarrow> q div 10 = 0 \<Longrightarrow> q mod 10 \<noteq> 0" for q :: int
  by (metis mod_div_trivial mod_mult_div_eq mult_zero_right add.right_neutral less_irrefl)

lemma digits_loop_exact_canonical:
  assumes "0 < v"
  shows "canonical (digits_loop (nat (log10_floor v + 1)) v [])"
proof -
  define L where "L = nat (log10_floor v)"
  have n: "nat (log10_floor v + 1) = Suc L"
    using log10_floor_nonneg[OF assms] by (simp add: L_def)
  have lo: "10 ^ L \<le> v"
    using log10_floor_bounds(1)[OF assms] by (simp add: L_def)
  have hi: "v < 10 ^ Suc L"
    using log10_floor_bounds(2)[OF assms] by (simp only: n)
  have "0 < v div 10 ^ L"
    using lo pos_imp_zdiv_pos_iff[of "10 ^ L" v] by simp
  moreover have "v div 10 ^ L div 10 = 0"
  proof -
    have "v div 10 ^ L div 10 = v div (10 ^ L * 10)"
      by (rule zdiv_zmult2_eq[symmetric]) simp
    also have "\<dots> = v div 10 ^ Suc L"
      by (simp add: mult.commute)
    also have "\<dots> = 0"
      using hi assms by (simp only: div_pos_pos_trivial less_imp_le)
    finally show ?thesis .
  qed
  ultimately have "v div 10 ^ L mod 10 \<noteq> 0"
    by (rule digit_nonzero)
  then show ?thesis
    using digits_loop_top[of "Suc L" v] by (simp add: canonical_def n)
qed

lemma BigInt_init_exact_canonical:
  assumes "0 \<le> v" and "0 < v \<longrightarrow> lg v = log10_floor v"
    and "dc = None \<or> (\<exists>d. dc = Some d \<and> log10_floor v + 1 \<le> d)"
  shows "\<exists>x. BigInt_init lg rnd (Some v) dc = Inr x \<and> canonical x"
proof (cases "v = 0")
  case True
  then show ?thesis
    by (simp add: BigInt_init_def canonical_def)
next
  case False
  with assms have pos: "0 < v" and lg: "lg v = log10_floor v"
    by simp_all
  have "(case dc of None \<Rightarrow> log10_floor v + 1 | Some d \<Rightarrow> min (log10_floor v + 1) d)
      = log10_floor v + 1"
    using assms(3) by (auto simp: min_def)
  then have "BigInt_init lg rnd (Some v) dc = Inr (digits_loop (nat (log10_floor v + 1)) v [])"
    using pos by (simp add: BigInt_init_def lg Let_def)
  then show ?thesis
    using digits_loop_exact_canonical[OF pos] by simp
qed

text \<open>
  When the library call overshoots by one, as \<open>math.log10(999999999999999) = 15.0\<close> does in
  double precision, the constructor stores one cell too many and the top cell is 0.
\<close>

lemma BigInt_init_overshoot:
  assumes "0 < v" and "lg v = log10_floor v + 1"
  shows "\<exists>x. BigInt_init lg rnd (Some v) None = Inr x \<and> \<not> canonical x"
proof -
  have n: "nat (lg v + 1) = Suc (nat (log10_floor v + 1))"
    using assms(2) log10_floor_nonneg[OF assms(1)] by simp
  have "v div 10 ^ nat (log10_floor v + 1) = 0"
    using log10_floor_bounds(2)[OF assms(1)] assms(1) by simp
  then have "\<not> canonical (digits_loop (nat (lg v + 1)) v [])"
    using digits_loop_top[of "nat (lg v + 1)" v] by (simp add: canonical_def n digits_loop_length)
  then show ?thesis
    using assms(1) by (simp add: BigInt_init_def Let_def)
qed

lemma BigInt_init_int:
  assumes "0 \<le> v" and "v < 10 ^ nat (lg v + 1)"
  shows "\<exists>x. BigInt_init lg rnd (Some v) None = Inr x \<and> valid_digits x \<and> BigInt_int x = v"
  using assms by (simp add: BigInt_init_def Let_def digits_loop_int digits_loop_valid)

text \<open>
  When the library call falls short of the decimal length, the constructor drops the most
  significant digits and the round trip loses them.
\<close>

lemma BigInt_init_undershoot:
  assumes "0 < v" and "10 ^ nat (lg v + 1) \<le> v"
  shows "\<exists>x. BigInt_init lg rnd (Some v) None = Inr x \<and> BigInt_int x \<noteq> v"
proof -
  have "v mod 10 ^ nat (lg v + 1) < 10 ^ nat (lg v + 1)"
    by (rule pos_mod_bound) simp
  with assms(2) have "v mod 10 ^ nat (lg v + 1) \<noteq> v"
    by linarith
  then show ?thesis
    using assms(1) by (simp add: BigInt_init_def Let_def digits_loop_int)
qed

section \<open>Correctness of addition and multiplication\<close>

text \<open>
  C2. For all non-negative native integers \<open>a\<close> and \<open>b\<close>, the sum of the values constructed
  from them converts back to \<open>a + b\<close>. As for the round trip, \<open>lg\<close> is any result of
  \<open>int(math.log10(_))\<close> that does not fall short of the decimal length of \<open>a\<close> and of \<open>b\<close>.
\<close>

theorem addition_correct:
  assumes "0 \<le> a" and "0 \<le> b" and "a < 10 ^ nat (lg a + 1)" and "b < 10 ^ nat (lg b + 1)"
  shows "\<exists>x y s. BigInt_init lg rnd (Some a) None = Inr x \<and>
    BigInt_init lg rnd (Some b) None = Inr y \<and>
    BigInt_add x (BigIntObj y) = Inr s \<and> BigInt_int s = a + b"
proof -
  from BigInt_init_int[of a lg rnd, OF assms(1,3)]
  obtain x where x: "BigInt_init lg rnd (Some a) None = Inr x" "valid_digits x" "BigInt_int x = a"
    by blast
  from BigInt_init_int[of b lg rnd, OF assms(2,4)]
  obtain y where y: "BigInt_init lg rnd (Some b) None = Inr y" "valid_digits y" "BigInt_int y = b"
    by blast
  from BigInt_add_correct[OF x(2) y(2)]
  obtain s where "BigInt_add x (BigIntObj y) = Inr s" "BigInt_int s = a + b"
    using x(3) y(3) by auto
  with x(1) y(1) show ?thesis
    by blast
qed

lemma log10_floor_958: "log10_floor 958 = 2"
  by (simp add: log10_floor_def compute_floorlog)

lemma log10_floor_67: "log10_floor 67 = 1"
  by (simp add: log10_floor_def compute_floorlog)

lemma BigInt_init_958: "BigInt_init log10_floor zero_draws (Some 958) None = Inr [8, 5, 9]"
  by (simp add: BigInt_init_def log10_floor_958 Let_def numeral_eq_Suc)

lemma BigInt_init_67: "BigInt_init log10_floor zero_draws (Some 67) None = Inr [7, 6]"
  by (simp add: BigInt_init_def log10_floor_67 Let_def numeral_eq_Suc)

lemma add_at_evals:
  "add_at ds 0 v = (if v < 0 then Inl NotImplementedError else if v = 0 then Inr ds
      else add_at ((ds @ replicate (Suc 0 - length ds) 0)
                     [0 := ((ds @ replicate (Suc 0 - length ds) 0) ! 0 + v) mod 10])
             1 (((ds @ replicate (Suc 0 - length ds) 0) ! 0 + v) div 10))"
  "add_at ds 1 v = (if v < 0 then Inl NotImplementedError else if v = 0 then Inr ds
      else add_at ((ds @ replicate (Suc 1 - length ds) 0)
                     [1 := ((ds @ replicate (Suc 1 - length ds) 0) ! 1 + v) mod 10])
             2 (((ds @ replicate (Suc 1 - length ds) 0) ! 1 + v) div 10))"
  "add_at ds 2 v = (if v < 0 then Inl NotImplementedError else if v = 0 then Inr ds
      else add_at ((ds @ replicate (Suc 2 - length ds) 0)
                     [2 := ((ds @ replicate (Suc 2 - length ds) 0) ! 2 + v) mod 10])
             3 (((ds @ replicate (Suc 2 - length ds) 0) ! 2 + v) div 10))"
  "add_at ds 3 v = (if v < 0 then Inl NotImplementedError else if v = 0 then Inr ds
      else add_at ((ds @ replicate (Suc 3 - length ds) 0)
                     [3 := ((ds @ replicate (Suc 3 - length ds) 0) ! 3 + v) mod 10])
             4 (((ds @ replicate (Suc 3 - length ds) 0) ! 3 + v) div 10))"
  using add_at_eval[of ds 0 v] add_at_eval[of ds 1 v] add_at_eval[of ds 2 v] add_at_eval[of ds 3 v]
  by simp_all

theorem addition_correct_witness:
  "(0::int) \<le> 958 \<and> (0::int) \<le> 67 \<and>
   (958::int) < 10 ^ nat (log10_floor 958 + 1) \<and> (67::int) < 10 ^ nat (log10_floor 67 + 1) \<and>
   BigInt_init log10_floor zero_draws (Some 958) None = Inr [8, 5, 9] \<and>
   BigInt_init log10_floor zero_draws (Some 67) None = Inr [7, 6] \<and>
   BigInt_add [8, 5, 9] (BigIntObj [7, 6]) = Inr [5, 2, 0, 1] \<and>
   BigInt_int [5, 2, 0, 1] = 958 + 67"
proof -
  have h: "(958::int) < 10 ^ nat (log10_floor 958 + 1)" "(67::int) < 10 ^ nat (log10_floor 67 + 1)"
    by (simp_all add: log10_floor_958 log10_floor_67)
  have s: "BigInt_add [8, 5, 9] (BigIntObj [7, 6]) = Inr [5, 2, 0, 1]"
    by (simp add: BigInt_add_def BigInt_len_def upt_rec add_at_evals)
  from addition_correct[of 958 67 log10_floor zero_draws] h
  have "BigInt_int [5, 2, 0, 1] = 958 + 67"
    by (simp add: BigInt_init_958 BigInt_init_67 s)
  with h s show ?thesis
    by (simp add: BigInt_init_958 BigInt_init_67)
qed

text \<open>
  C1. For all non-negative native integers \<open>a\<close> and \<open>b\<close>, the product of the values
  constructed from them converts back to \<open>a * b\<close>, under the same reading of
  \<open>int(math.log10(_))\<close>.
\<close>

theorem multiplication_correct:
  assumes "0 \<le> a" and "0 \<le> b" and "a < 10 ^ nat (lg a + 1)" and "b < 10 ^ nat (lg b + 1)"
  shows "\<exists>x y p. BigInt_init lg rnd (Some a) None = Inr x \<and>
    BigInt_init lg rnd (Some b) None = Inr y \<and>
    BigInt_mul x (BigIntObj y) = Inr p \<and> BigInt_int p = a * b"
proof -
  from BigInt_init_int[of a lg rnd, OF assms(1,3)]
  obtain x where x: "BigInt_init lg rnd (Some a) None = Inr x" "valid_digits x" "BigInt_int x = a"
    by blast
  from BigInt_init_int[of b lg rnd, OF assms(2,4)]
  obtain y where y: "BigInt_init lg rnd (Some b) None = Inr y" "valid_digits y" "BigInt_int y = b"
    by blast
  from BigInt_mul_correct[OF x(2) y(2)]
  obtain p where "BigInt_mul x (BigIntObj y) = Inr p" "BigInt_int p = a * b"
    using x(3) y(3) by auto
  with x(1) y(1) show ?thesis
    by blast
qed

lemma log10_floor_27: "log10_floor 27 = 1"
  by (simp add: log10_floor_def compute_floorlog)

lemma log10_floor_46: "log10_floor 46 = 1"
  by (simp add: log10_floor_def compute_floorlog)

lemma BigInt_init_27: "BigInt_init log10_floor zero_draws (Some 27) None = Inr [7, 2]"
  by (simp add: BigInt_init_def log10_floor_27 Let_def numeral_eq_Suc)

lemma BigInt_init_46: "BigInt_init log10_floor zero_draws (Some 46) None = Inr [6, 4]"
  by (simp add: BigInt_init_def log10_floor_46 Let_def numeral_eq_Suc)

lemma BigInt_mul_27_46: "BigInt_mul [7, 2] (BigIntObj [6, 4]) = Inr [2, 4, 2, 1]"
  by (simp add: BigInt_mul_def BigInt_len_def upt_rec add_at_evals)

theorem multiplication_correct_witness:
  "(0::int) \<le> 27 \<and> (0::int) \<le> 46 \<and>
   (27::int) < 10 ^ nat (log10_floor 27 + 1) \<and> (46::int) < 10 ^ nat (log10_floor 46 + 1) \<and>
   BigInt_init log10_floor zero_draws (Some 27) None = Inr [7, 2] \<and>
   BigInt_init log10_floor zero_draws (Some 46) None = Inr [6, 4] \<and>
   BigInt_mul [7, 2] (BigIntObj [6, 4]) = Inr [2, 4, 2, 1] \<and>
   BigInt_int [2, 4, 2, 1] = 27 * 46"
proof -
  have h: "(27::int) < 10 ^ nat (log10_floor 27 + 1)" "(46::int) < 10 ^ nat (log10_floor 46 + 1)"
    by (simp_all add: log10_floor_27 log10_floor_46)
  from multiplication_correct[of 27 46 log10_floor zero_draws] h
  have "BigInt_int [2, 4, 2, 1] = 27 * 46"
    by (simp add: BigInt_init_27 BigInt_init_46 BigInt_mul_27_46)
  with h show ?thesis
    by (simp add: BigInt_init_27 BigInt_init_46 BigInt_mul_27_46)
qed

section \<open>Canonical form of constructed and derived values\<close>

text \<open>
  C5, as stated: every value constructed from a native integer, with or without a digit
  count, has a non-zero most significant cell. It fails for the truncating construction:
  \<open>BigInt(value=105, digit_count=2)\<close> keeps the two least significant digits, 5 and 0, and
  its most significant cell is 0.
\<close>

theorem canonical_form_counterexample:
  "BigInt_init log10_floor zero_draws (Some 105) (Some 2) = Inr [5, 0] \<and> \<not> canonical [5, 0]"
proof -
  have "log10_floor 105 = 2"
    by (simp add: log10_floor_def compute_floorlog)
  then show ?thesis
    by (simp add: BigInt_init_def Let_def numeral_eq_Suc canonical_def)
qed

text \<open>
  C5, amended. The most significant cell is non-zero whenever there is a cell
  \<^item> in the value constructed from a native integer \<open>v \<ge> 0\<close> with no digit count, or with a
    digit count that is at least the decimal length of \<open>v\<close>, when \<open>int(math.log10(v))\<close> is the
    exact floor of the decimal logarithm of \<open>v\<close>;
  \<^item> in the sum and in the product of two values whose cells are digits;
  \<^item> after \<open>add_at\<close> with a non-negative index and amount on a value whose cells are digits
    and whose most significant cell is non-zero.
\<close>

theorem canonical_form_amended:
  "(0 \<le> v \<and> (0 < v \<longrightarrow> lg v = log10_floor v) \<and>
      (dc = None \<or> (\<exists>d. dc = Some d \<and> log10_floor v + 1 \<le> d)) \<longrightarrow>
      (\<exists>x. BigInt_init lg rnd (Some v) dc = Inr x \<and> canonical x)) \<and>
   (valid_digits xs \<and> valid_digits ys \<longrightarrow>
      (\<exists>s. BigInt_add xs (BigIntObj ys) = Inr s \<and> canonical s) \<and>
      (\<exists>p. BigInt_mul xs (BigIntObj ys) = Inr p \<and> canonical p)) \<and>
   (valid_digits ds \<and> canonical ds \<and> 0 \<le> idx \<and> 0 \<le> amount \<longrightarrow>
      (\<exists>r. add_at ds idx amount = Inr r \<and> canonical r))"
proof -
  have "\<exists>r. add_at ds idx amount = Inr r \<and> canonical r"
    if "valid_digits ds" "canonical ds" "0 \<le> idx" "0 \<le> amount"
  proof -
    from add_at_value[OF that(1,3,4)] obtain r where r: "add_at ds idx amount = Inr r"
      by blast
    with add_at_canonical[OF that(1,3,4) _ r] that(2) show ?thesis
      by blast
  qed
  then show ?thesis
    using BigInt_init_exact_canonical[of v lg dc rnd]
      BigInt_add_correct[of xs ys] BigInt_mul_correct[of xs ys]
    by blast
qed

theorem canonical_form_amended_witness:
  "(0::int) \<le> 105 \<and> BigInt_init log10_floor zero_draws (Some 105) None = Inr [5, 0, 1] \<and>
   canonical [5, 0, 1] \<and>
   valid_digits [7, 2] \<and> valid_digits [6, 4] \<and>
   BigInt_add [7, 2] (BigIntObj [6, 4]) = Inr [3, 7] \<and> canonical [3, 7] \<and>
   BigInt_mul [7, 2] (BigIntObj [6, 4]) = Inr [2, 4, 2, 1] \<and> canonical [2, 4, 2, 1] \<and>
   valid_digits [9, 9] \<and> canonical [9, 9] \<and> add_at [9, 9] 0 1 = Inr [0, 0, 1] \<and>
   canonical [0, 0, 1]"
proof -
  have lg: "log10_floor 105 = 2"
    by (simp add: log10_floor_def compute_floorlog)
  have x: "BigInt_init log10_floor zero_draws (Some 105) None = Inr [5, 0, 1]"
    by (simp add: BigInt_init_def lg Let_def numeral_eq_Suc)
  have v: "valid_digits [7, 2]" "valid_digits [6, 4]" "valid_digits [9, 9]"
    and c: "canonical [9, 9]"
    by (simp_all add: valid_digits_def canonical_def)
  have s: "BigInt_add [7, 2] (BigIntObj [6, 4]) = Inr [3, 7]"
    by (simp add: BigInt_add_def BigInt_len_def upt_rec add_at_evals)
  have r: "add_at [9, 9] 0 1 = Inr [0, 0, 1]"
    by (simp add: add_at_evals)
  have h1: "0 \<le> (105::int) \<and> (0 < (105::int) \<longrightarrow> log10_floor 105 = log10_floor 105) \<and>
      (None = (None :: int option) \<or> (\<exists>d. None = Some d \<and> log10_floor 105 + 1 \<le> d))"
    by simp
  have h3: "valid_digits [9, 9] \<and> canonical [9, 9] \<and> (0::int) \<le> 0 \<and> (0::int) \<le> 1"
    using v c by simp
  note t = canonical_form_amended[of 105 log10_floor None zero_draws "[7, 2]" "[6, 4]" "[9, 9]" 0 1]
  from t h1 x have c1: "canonical [5, 0, 1]"
    by auto
  from t v s BigInt_mul_27_46 have c2: "canonical [3, 7]" "canonical [2, 4, 2, 1]"
    by auto
  from t h3 r have c3: "canonical [0, 0, 1]"
    by auto
  from x v c s r c1 c2 c3 BigInt_mul_27_46 show ?thesis
    by simp
qed

lemma item_index_from_end: "k < n \<Longrightarrow> item_index n (- 1 - int k) = Some (n - 1 - k)"
  by (auto simp: item_index_def nat_eq_iff)

section \<open>Values of canonical digit lists\<close>

lemma low_value_0 [simp]: "low_value 0 xs = 0"
  by (simp add: low_value_def)

lemma low_value_Suc: "low_value (Suc m) xs = low_value m xs + xs ! m * 10 ^ m"
  by (simp add: low_value_def)

lemma low_value_full: "low_value (length xs) xs = BigInt_int xs"
  by (simp add: low_value_def BigInt_int_sum)

lemma low_value_bounds:
  "valid_digits xs \<Longrightarrow> m \<le> length xs \<Longrightarrow> 0 \<le> low_value m xs \<and> low_value m xs < 10 ^ m"
proof (induction m)
  case 0
  show ?case by simp
next
  case (Suc m)
  then have l: "0 \<le> low_value m xs" "low_value m xs < 10 ^ m"
    by simp_all
  have d: "0 \<le> xs ! m" "xs ! m \<le> 9"
    using valid_digits_nth[of xs m] Suc.prems by simp_all
  have "xs ! m * 10 ^ m \<le> 9 * 10 ^ m"
    using d(2) by (rule mult_right_mono) simp
  moreover have "0 \<le> xs ! m * 10 ^ m"
    using d(1) by simp
  moreover have "(10::int) ^ Suc m = 10 ^ m + 9 * 10 ^ m"
    by simp
  ultimately have "0 \<le> low_value m xs + xs ! m * 10 ^ m \<and>
      low_value m xs + xs ! m * 10 ^ m < 10 ^ Suc m"
    using l by linarith
  then show ?case
    by (simp only: low_value_Suc)
qed

lemma canonical_lower_bound:
  assumes "valid_digits xs" and "canonical xs" and "xs \<noteq> []"
  shows "10 ^ (length xs - 1) \<le> BigInt_int xs"
proof -
  obtain n where n: "length xs = Suc n"
    using assms(3) by (cases xs) simp_all
  have "0 \<le> xs ! n"
    using valid_digits_nth[OF assms(1), of n] n by simp
  moreover have "xs ! n \<noteq> 0"
    using assms(2) n by (simp add: canonical_def)
  ultimately have "1 \<le> xs ! n"
    by simp
  then have "1 * 10 ^ n \<le> xs ! n * 10 ^ n"
    by (rule mult_right_mono) simp
  moreover have "0 \<le> low_value n xs"
    using low_value_bounds[OF assms(1), of n] n by simp
  moreover have "BigInt_int xs = low_value n xs + xs ! n * 10 ^ n"
    using low_value_full[of xs] by (simp add: n low_value_Suc)
  ultimately have "10 ^ n \<le> BigInt_int xs"
    by linarith
  then show ?thesis
    by (simp add: n)
qed

lemma longer_is_greater:
  assumes "valid_digits xs" and "canonical xs" and "valid_digits ys"
    and "length ys < length xs"
  shows "BigInt_int ys < BigInt_int xs"
proof -
  have "BigInt_int ys < 10 ^ length ys"
    using low_value_bounds[OF assms(3), of "length ys"] by (simp add: low_value_full)
  also have "(10::int) ^ length ys \<le> 10 ^ (length xs - 1)"
    using assms(4) by (intro power_increasing) simp_all
  also have "\<dots> \<le> BigInt_int xs"
    using assms by (intro canonical_lower_bound) auto
  finally show ?thesis .
qed

lemma gt_loop_value:
  assumes "valid_digits xs" and "valid_digits ys"
  shows "m \<le> length xs \<Longrightarrow> m \<le> length ys \<Longrightarrow>
    gt_loop xs ys (rev [0..<m]) False \<longleftrightarrow> low_value m ys < low_value m xs"
proof (induction m)
  case 0
  show ?case by simp
next
  case (Suc m)
  have bx: "0 \<le> low_value m xs" "low_value m xs < 10 ^ m"
    using low_value_bounds[OF assms(1), of m] Suc.prems by simp_all
  have bd: "0 \<le> low_value m ys" "low_value m ys < 10 ^ m"
    using low_value_bounds[OF assms(2), of m] Suc.prems by simp_all
  consider "ys ! m < xs ! m" | "xs ! m < ys ! m" | "xs ! m = ys ! m"
    by linarith
  then show ?case
  proof cases
    case 1
    then have "ys ! m + 1 \<le> xs ! m"
      by simp
    then have "(ys ! m + 1) * 10 ^ m \<le> xs ! m * 10 ^ m"
      by (rule mult_right_mono) simp
    then have "ys ! m * 10 ^ m + 10 ^ m \<le> xs ! m * 10 ^ m"
      by (simp only: distrib_right mult_1)
    then have "low_value m ys + ys ! m * 10 ^ m < low_value m xs + xs ! m * 10 ^ m"
      using bx bd by linarith
    then have "low_value (Suc m) ys < low_value (Suc m) xs"
      by (simp only: low_value_Suc)
    with 1 show ?thesis
      by simp
  next
    case 2
    then have "xs ! m + 1 \<le> ys ! m"
      by simp
    then have "(xs ! m + 1) * 10 ^ m \<le> ys ! m * 10 ^ m"
      by (rule mult_right_mono) simp
    then have "xs ! m * 10 ^ m + 10 ^ m \<le> ys ! m * 10 ^ m"
      by (simp only: distrib_right mult_1)
    then have "low_value m xs + xs ! m * 10 ^ m < low_value m ys + ys ! m * 10 ^ m"
      using bx bd by linarith
    then have "low_value (Suc m) xs < low_value (Suc m) ys"
      by (simp only: low_value_Suc)
    with 2 show ?thesis
      by simp
  next
    case 3
    then show ?thesis
      using Suc by (simp add: low_value_Suc)
  qed
qed

lemma BigInt_gt_value:
  assumes "valid_digits xs" and "canonical xs" and "valid_digits ys" and "canonical ys"
  shows "BigInt_gt xs (BigIntObj ys) = Inr (BigInt_int ys < BigInt_int xs)"
proof -
  consider "length ys < length xs" | "length xs < length ys" | "length xs = length ys"
    by linarith
  then show ?thesis
  proof cases
    case 1
    with longer_is_greater[OF assms(1,2,3)] show ?thesis
      by (simp add: BigInt_gt_def BigInt_len_def)
  next
    case 2
    with longer_is_greater[OF assms(3,4,1)] show ?thesis
      by (simp add: BigInt_gt_def BigInt_len_def)
  next
    case 3
    with gt_loop_value[OF assms(1,3), of "length xs"] show ?thesis
      using low_value_full[of xs] low_value_full[of ys]
      by (simp add: BigInt_gt_def BigInt_len_def)
  qed
qed

lemma BigInt_ge_value:
  assumes "valid_digits xs" and "canonical xs" and "valid_digits ys" and "canonical ys"
  shows "BigInt_ge xs (BigIntObj ys) = Inr (BigInt_int ys \<le> BigInt_int xs)"
  using BigInt_gt_value[OF assms(3,4,1,2)] by (simp add: BigInt_ge_def not_less)

lemma BigInt_le_value:
  assumes "valid_digits xs" and "canonical xs" and "valid_digits ys" and "canonical ys"
  shows "BigInt_le xs (BigIntObj ys) = Inr (BigInt_int xs \<le> BigInt_int ys)"
  using BigInt_gt_value[OF assms] by (simp add: BigInt_le_def not_less)

lemma digits_unique:
  "length xs = length ys \<Longrightarrow> valid_digits xs \<Longrightarrow> valid_digits ys \<Longrightarrow>
   BigInt_int xs = BigInt_int ys \<Longrightarrow> xs = ys"
proof (induction xs ys rule: list_induct2)
  case Nil
  show ?case by simp
next
  case (Cons x xs y ys)
  then have x: "0 \<le> x" "x \<le> 9" and y: "0 \<le> y" "y \<le> 9"
    and v: "valid_digits xs" "valid_digits ys"
    by (simp_all add: valid_digits_def)
  from Cons.prems(3) have e: "x + 10 * BigInt_int xs = y + 10 * BigInt_int ys"
    by (simp add: BigInt_int_Cons)
  then have "(x + 10 * BigInt_int xs) mod 10 = (y + 10 * BigInt_int ys) mod 10"
    by simp
  with x y have "x = y"
    by simp
  with e have "BigInt_int xs = BigInt_int ys"
    by simp
  with Cons.IH v \<open>x = y\<close> show ?case
    by simp
qed

lemma canonical_unique:
  assumes "valid_digits xs" and "canonical xs" and "valid_digits ys" and "canonical ys"
    and "BigInt_int xs = BigInt_int ys"
  shows "xs = ys"
proof -
  have "length xs = length ys"
    using longer_is_greater[OF assms(1,2,3)] longer_is_greater[OF assms(3,4,1)] assms(5)
    by (cases "length xs" "length ys" rule: linorder_cases) simp_all
  then show ?thesis
    using assms by (intro digits_unique)
qed

lemma clone_loop_eq: "clone_loop ds c = c @ ds"
  by (induction ds arbitrary: c) simp_all

lemma clone_eq [simp]: "clone ds = ds"
  by (simp add: clone_def clone_loop_eq)

lemma eq_loop_upt:
  "eq_loop xs ys [k..<n] eq \<longleftrightarrow> (if k < n then \<forall>i. k \<le> i \<and> i < n \<longrightarrow> xs ! i = ys ! i else eq)"
proof (induction "n - k" arbitrary: k eq)
  case 0
  then show ?case by simp
next
  case (Suc m)
  then have k: "k < n" and m: "m = n - Suc k"
    by simp_all
  have u: "[k..<n] = k # [Suc k..<n]"
    using k by (simp add: upt_rec)
  show ?case
  proof (cases "xs ! k = ys ! k")
    case True
    then have "eq_loop xs ys [k..<n] eq = eq_loop xs ys [Suc k..<n] True"
      by (simp add: u)
    also have "\<dots> \<longleftrightarrow> (if Suc k < n then \<forall>i. Suc k \<le> i \<and> i < n \<longrightarrow> xs ! i = ys ! i else True)"
      by (rule Suc.hyps(1)[OF m])
    also have "\<dots> \<longleftrightarrow> (\<forall>i. k \<le> i \<and> i < n \<longrightarrow> xs ! i = ys ! i)"
    proof
      assume a: "if Suc k < n then \<forall>i. Suc k \<le> i \<and> i < n \<longrightarrow> xs ! i = ys ! i else True"
      show "\<forall>i. k \<le> i \<and> i < n \<longrightarrow> xs ! i = ys ! i"
      proof (intro allI impI)
        fix i
        assume i: "k \<le> i \<and> i < n"
        show "xs ! i = ys ! i"
        proof (cases "i = k")
          case True
          with \<open>xs ! k = ys ! k\<close> show ?thesis by simp
        next
          case False
          with i have "Suc k \<le> i" "Suc k < n"
            by simp_all
          with a i show ?thesis
            by simp
        qed
      qed
    next
      assume "\<forall>i. k \<le> i \<and> i < n \<longrightarrow> xs ! i = ys ! i"
      then show "if Suc k < n then \<forall>i. Suc k \<le> i \<and> i < n \<longrightarrow> xs ! i = ys ! i else True"
        by simp
    qed
    finally show ?thesis
      using k by simp
  next
    case False
    then have "\<not> eq_loop xs ys [k..<n] eq"
      by (simp add: u)
    moreover have "\<not> (\<forall>i. k \<le> i \<and> i < n \<longrightarrow> xs ! i = ys ! i)"
      using False k by auto
    ultimately show ?thesis
      using k by simp
  qed
qed

lemma BigInt_eq_iff: "BigInt_eq xs (BigIntObj ys) \<longleftrightarrow> xs = ys"
proof (cases "length xs = length ys")
  case True
  have "BigInt_eq xs (BigIntObj ys) \<longleftrightarrow> (\<forall>i<length xs. xs ! i = ys ! i)"
    using True by (simp add: BigInt_eq_def BigInt_len_def eq_loop_upt)
  also have "\<dots> \<longleftrightarrow> xs = ys"
    using True list_eq_iff_nth_eq[of xs ys] by simp
  finally show ?thesis .
next
  case False
  then show ?thesis
    by (auto simp: BigInt_eq_def BigInt_len_def)
qed

section \<open>What the brute-force search returns\<close>

lemma swapped_from_refl: "swapped_from idx a b a b"
  by (simp add: swapped_from_def)

lemma swapped_from_end:
  assumes "length a = length b" and "length a \<le> idx"
  shows "swapped_from idx a b c d \<longleftrightarrow> c = a \<and> d = b"
proof
  assume s: "swapped_from idx a b c d"
  then have "length c = length a" "\<forall>i<length a. c ! i = a ! i"
    using assms(2) by (auto simp: swapped_from_def)
  then have "c = a"
    by (simp add: list_eq_iff_nth_eq[of c a])
  from s have "length d = length b" "\<forall>i<length b. d ! i = b ! i"
    using assms by (auto simp: swapped_from_def)
  then have "d = b"
    by (simp add: list_eq_iff_nth_eq[of d b])
  with \<open>c = a\<close> show "c = a \<and> d = b"
    by simp
next
  assume "c = a \<and> d = b"
  then show "swapped_from idx a b c d"
    by (simp add: swapped_from_refl)
qed

lemma swapped_from_split:
  assumes "length a = length b" and "idx < length a"
  shows "swapped_from idx a b c d \<longleftrightarrow>
    swapped_from (Suc idx) a b c d \<or>
    swapped_from (Suc idx) (a[idx := b ! idx]) (b[idx := a ! idx]) c d"
proof (intro iffI)
  assume s: "swapped_from idx a b c d"
  then have len: "length c = length a" "length d = length b"
    and all: "\<And>i. i < length a \<Longrightarrow>
      (c ! i = a ! i \<and> d ! i = b ! i) \<or> (idx \<le> i \<and> c ! i = b ! i \<and> d ! i = a ! i)"
    by (simp_all add: swapped_from_def)
  show "swapped_from (Suc idx) a b c d \<or>
    swapped_from (Suc idx) (a[idx := b ! idx]) (b[idx := a ! idx]) c d"
  proof (cases "c ! idx = a ! idx \<and> d ! idx = b ! idx")
    case True
    have "(c ! i = a ! i \<and> d ! i = b ! i) \<or> (Suc idx \<le> i \<and> c ! i = b ! i \<and> d ! i = a ! i)"
      if "i < length a" for i
      using all[OF that] True by (cases "i = idx") auto
    then have "swapped_from (Suc idx) a b c d"
      using len by (simp add: swapped_from_def)
    then show ?thesis ..
  next
    case False
    with all[OF assms(2)] have sw: "c ! idx = b ! idx" "d ! idx = a ! idx"
      by auto
    have "(c ! i = a[idx := b ! idx] ! i \<and> d ! i = b[idx := a ! idx] ! i) \<or>
        (Suc idx \<le> i \<and> c ! i = b[idx := a ! idx] ! i \<and> d ! i = a[idx := b ! idx] ! i)"
      if "i < length a" for i
    proof (cases "i = idx")
      case True
      then show ?thesis
        using sw assms by simp
    next
      case False
      then show ?thesis
        using all[OF that] by auto
    qed
    then have "swapped_from (Suc idx) (a[idx := b ! idx]) (b[idx := a ! idx]) c d"
      using len by (simp add: swapped_from_def)
    then show ?thesis ..
  qed
next
  assume "swapped_from (Suc idx) a b c d \<or>
    swapped_from (Suc idx) (a[idx := b ! idx]) (b[idx := a ! idx]) c d"
  then show "swapped_from idx a b c d"
  proof
    assume "swapped_from (Suc idx) a b c d"
    then show ?thesis
      by (auto simp: swapped_from_def)
  next
    assume s: "swapped_from (Suc idx) (a[idx := b ! idx]) (b[idx := a ! idx]) c d"
    then have len: "length c = length a" "length d = length b"
      and all: "\<And>i. i < length a \<Longrightarrow>
        (c ! i = a[idx := b ! idx] ! i \<and> d ! i = b[idx := a ! idx] ! i) \<or>
        (Suc idx \<le> i \<and> c ! i = b[idx := a ! idx] ! i \<and> d ! i = a[idx := b ! idx] ! i)"
      by (simp_all add: swapped_from_def)
    have "(c ! i = a ! i \<and> d ! i = b ! i) \<or> (idx \<le> i \<and> c ! i = b ! i \<and> d ! i = a ! i)"
      if "i < length a" for i
    proof (cases "i = idx")
      case True
      then show ?thesis
        using all[OF that] assms by simp
    next
      case False
      then show ?thesis
        using all[OF that] by auto
    qed
    then show ?thesis
      using len by (simp add: swapped_from_def)
  qed
qed

lemma valid_digits_swap_cell:
  "valid_digits a \<Longrightarrow> valid_digits b \<Longrightarrow> idx < length b \<Longrightarrow> valid_digits (a[idx := b ! idx])"
  using valid_digits_nth[of b idx] by (simp add: valid_digits_update)

lemma valid_digits_iff_nth: "valid_digits xs \<longleftrightarrow> (\<forall>i<length xs. 0 \<le> xs ! i \<and> xs ! i \<le> 9)"
  by (simp add: valid_digits_def all_set_conv_all_nth)

lemma swapped_from_valid:
  assumes "valid_digits a" and "valid_digits b" and "length a = length b"
    and "swapped_from idx a b c d"
  shows "valid_digits c \<and> valid_digits d"
proof -
  have "0 \<le> c ! i \<and> c ! i \<le> 9 \<and> 0 \<le> d ! i \<and> d ! i \<le> 9" if "i < length a" for i
  proof -
    from assms(4) that
    have "(c ! i = a ! i \<and> d ! i = b ! i) \<or> (c ! i = b ! i \<and> d ! i = a ! i)"
      by (auto simp: swapped_from_def)
    then show ?thesis
      using valid_digits_nth[OF assms(1) that] valid_digits_nth[OF assms(2), of i] that assms(3)
      by auto
  qed
  moreover have "length c = length a" "length d = length a"
    using assms(3,4) by (simp_all add: swapped_from_def)
  ultimately show ?thesis
    by (simp add: valid_digits_iff_nth)
qed

lemma brute_leaf:
  assumes "valid_digits a" and "valid_digits b" and "length a = length b" and "length a \<le> idx"
  shows "\<exists>p. calc_extreme_products_brute a b idx = Inr (a, b, p, a, b, p) \<and>
    is_max_of idx a b p \<and> is_min_of idx a b p"
proof -
  from BigInt_mul_correct[OF assms(1,2)]
  obtain p where p: "BigInt_mul a (BigIntObj b) = Inr p" "valid_digits p" "canonical p"
    "BigInt_int p = BigInt_int a * BigInt_int b"
    by blast
  have "calc_extreme_products_brute a b idx = Inr (a, b, p, a, b, p)"
    using assms(3,4) p(1) by (subst calc_extreme_products_brute.simps) (simp add: BigInt_len_def)
  moreover have "is_max_of idx a b p" "is_min_of idx a b p"
    using p(2,3,4) by (simp_all add: is_max_of_def is_min_of_def swapped_from_end[OF assms(3,4)])
  ultimately show ?thesis
    by blast
qed

lemma brute_node:
  assumes "length a = length b" and "idx < length a"
    and "calc_extreme_products_brute a b (Suc idx) = Inr (c1_max, d1_max, p1_max, c1_min, d1_min, p1_min)"
    and "calc_extreme_products_brute (a[idx := b ! idx]) (b[idx := a ! idx]) (Suc idx)
      = Inr (c2_max, d2_max, p2_max, c2_min, d2_min, p2_min)"
    and "BigInt_ge p1_max (BigIntObj p2_max) = Inr ge_max"
    and "BigInt_le p1_min (BigIntObj p2_min) = Inr le_min"
  shows "calc_extreme_products_brute a b idx =
    Inr (if ge_max then c1_max else c2_max, if ge_max then d1_max else d2_max,
         if ge_max then p1_max else p2_max,
         if le_min then c1_min else c2_min, if le_min then d1_min else d2_min,
         if le_min then p1_min else p2_min)"
  using assms by (subst calc_extreme_products_brute.simps) (simp add: BigInt_len_def)

lemma brute_spec:
  "valid_digits a \<Longrightarrow> valid_digits b \<Longrightarrow> length a = length b \<Longrightarrow>
   \<exists>c_max d_max p_max c_min d_min p_min.
     calc_extreme_products_brute a b idx = Inr (c_max, d_max, p_max, c_min, d_min, p_min) \<and>
     is_max_of idx a b p_max \<and> is_min_of idx a b p_min"
proof (induction "length a - idx" arbitrary: a b idx)
  case 0
  then have "length a \<le> idx"
    by simp
  from brute_leaf[OF "0.prems" this] show ?case
    by blast
next
  case (Suc m)
  then have idx: "idx < length a" and m: "m = length a - Suc idx"
    by simp_all
  note len = \<open>length a = length b\<close>
  define a' where "a' = a[idx := b ! idx]"
  define b' where "b' = b[idx := a ! idx]"
  have va': "valid_digits a'" and vb': "valid_digits b'"
    using Suc.prems idx by (simp_all add: a'_def b'_def valid_digits_swap_cell)
  have len': "length a' = length b'" and m': "m = length a' - Suc idx"
    using len m by (simp_all add: a'_def b'_def)
  from Suc.hyps(1)[OF m Suc.prems]
  obtain c1 d1 p1 c1' d1' p1' where r1:
    "calc_extreme_products_brute a b (Suc idx) = Inr (c1, d1, p1, c1', d1', p1')"
    "is_max_of (Suc idx) a b p1" "is_min_of (Suc idx) a b p1'"
    by blast
  from Suc.hyps(1)[OF m' va' vb' len']
  obtain c2 d2 p2 c2' d2' p2' where r2:
    "calc_extreme_products_brute a' b' (Suc idx) = Inr (c2, d2, p2, c2', d2', p2')"
    "is_max_of (Suc idx) a' b' p2" "is_min_of (Suc idx) a' b' p2'"
    by blast
  have ge: "BigInt_ge p1 (BigIntObj p2) = Inr (BigInt_int p2 \<le> BigInt_int p1)"
    using r1(2) r2(2) by (intro BigInt_ge_value) (simp_all add: is_max_of_def)
  have le: "BigInt_le p1' (BigIntObj p2') = Inr (BigInt_int p1' \<le> BigInt_int p2')"
    using r1(3) r2(3) by (intro BigInt_le_value) (simp_all add: is_min_of_def)
  note split = swapped_from_split[OF len idx, folded a'_def b'_def]
  define pmax where "pmax = (if BigInt_int p2 \<le> BigInt_int p1 then p1 else p2)"
  define pmin where "pmin = (if BigInt_int p1' \<le> BigInt_int p2' then p1' else p2')"
  have run: "calc_extreme_products_brute a b idx =
    Inr (if BigInt_int p2 \<le> BigInt_int p1 then c1 else c2,
         if BigInt_int p2 \<le> BigInt_int p1 then d1 else d2, pmax,
         if BigInt_int p1' \<le> BigInt_int p2' then c1' else c2',
         if BigInt_int p1' \<le> BigInt_int p2' then d1' else d2', pmin)"
    unfolding pmax_def pmin_def
    by (rule brute_node[OF len idx r1(1) r2(1)[unfolded a'_def b'_def] ge le])
  have "is_max_of idx a b pmax"
  proof -
    have v: "valid_digits pmax" "canonical pmax"
      using r1(2) r2(2) by (simp_all add: pmax_def is_max_of_def)
    have ex: "\<exists>c d. swapped_from idx a b c d \<and> BigInt_int pmax = BigInt_int c * BigInt_int d"
      using r1(2) r2(2) split unfolding pmax_def is_max_of_def
      by (cases "BigInt_int p2 \<le> BigInt_int p1") (simp, blast)+
    have "BigInt_int c * BigInt_int d \<le> BigInt_int pmax" if "swapped_from idx a b c d" for c d
    proof -
      from that split have "swapped_from (Suc idx) a b c d \<or> swapped_from (Suc idx) a' b' c d"
        by simp
      then have "BigInt_int c * BigInt_int d \<le> BigInt_int p1 \<or>
          BigInt_int c * BigInt_int d \<le> BigInt_int p2"
        using r1(2) r2(2) by (auto simp: is_max_of_def)
      then show ?thesis
        by (auto simp: pmax_def)
    qed
    with v ex show ?thesis
      by (simp add: is_max_of_def)
  qed
  moreover have "is_min_of idx a b pmin"
  proof -
    have v: "valid_digits pmin" "canonical pmin"
      using r1(3) r2(3) by (simp_all add: pmin_def is_min_of_def)
    have ex: "\<exists>c d. swapped_from idx a b c d \<and> BigInt_int pmin = BigInt_int c * BigInt_int d"
      using r1(3) r2(3) split unfolding pmin_def is_min_of_def
      by (cases "BigInt_int p1' \<le> BigInt_int p2'") (simp, blast)+
    have "BigInt_int pmin \<le> BigInt_int c * BigInt_int d" if "swapped_from idx a b c d" for c d
    proof -
      from that split have "swapped_from (Suc idx) a b c d \<or> swapped_from (Suc idx) a' b' c d"
        by simp
      then have "BigInt_int p1' \<le> BigInt_int c * BigInt_int d \<or>
          BigInt_int p2' \<le> BigInt_int c * BigInt_int d"
        using r1(3) r2(3) by (auto simp: is_min_of_def)
      then show ?thesis
        by (auto simp: pmin_def)
    qed
    with v ex show ?thesis
      by (simp add: is_min_of_def)
  qed
  ultimately show ?case
    using run by blast
qed

section \<open>What the greedy scans return\<close>

lemma spread_Suc: "spread c d (Suc m) = spread c d m + \<bar>c ! m - d ! m\<bar> * 10 ^ m"
  by (simp add: spread_def)

lemma spread_cong:
  "(\<And>i. i < m \<Longrightarrow> c' ! i = c ! i \<and> d' ! i = d ! i) \<Longrightarrow> spread c' d' m = spread c d m"
  by (simp add: spread_def)

lemma low_value_cong: "(\<And>i. i < m \<Longrightarrow> c' ! i = c ! i) \<Longrightarrow> low_value m c' = low_value m c"
  by (simp add: low_value_def)

lemma spread_bounds:
  "valid_digits c \<Longrightarrow> valid_digits d \<Longrightarrow> m \<le> length c \<Longrightarrow> m \<le> length d \<Longrightarrow>
   0 \<le> spread c d m \<and> spread c d m < 10 ^ m"
proof (induction m)
  case 0
  show ?case by (simp add: spread_def)
next
  case (Suc m)
  then have l: "0 \<le> spread c d m" "spread c d m < 10 ^ m"
    by simp_all
  have "0 \<le> c ! m" "c ! m \<le> 9" "0 \<le> d ! m" "d ! m \<le> 9"
    using valid_digits_nth[of c m] valid_digits_nth[of d m] Suc.prems by simp_all
  then have d: "0 \<le> \<bar>c ! m - d ! m\<bar>" "\<bar>c ! m - d ! m\<bar> \<le> 9"
    by simp_all
  have "\<bar>c ! m - d ! m\<bar> * 10 ^ m \<le> 9 * 10 ^ m"
    using d(2) by (rule mult_right_mono) simp
  moreover have "0 \<le> \<bar>c ! m - d ! m\<bar> * 10 ^ m"
    by simp
  moreover have "(10::int) ^ Suc m = 10 ^ m + 9 * 10 ^ m"
    by simp
  ultimately have "0 \<le> spread c d m + \<bar>c ! m - d ! m\<bar> * 10 ^ m \<and>
      spread c d m + \<bar>c ! m - d ! m\<bar> * 10 ^ m < 10 ^ Suc m"
    using l by linarith
  then show ?case
    by (simp only: spread_Suc)
qed

lemma swapped_cell:
  assumes "swapped_from 0 a b c d" and "i < length a"
  shows "(c ! i = a ! i \<and> d ! i = b ! i) \<or> (c ! i = b ! i \<and> d ! i = a ! i)"
  using assms by (auto simp: swapped_from_def)

lemma swapped_low_sum:
  assumes "swapped_from 0 a b c d"
  shows "m \<le> length a \<Longrightarrow> low_value m c + low_value m d = low_value m a + low_value m b"
proof (induction m)
  case 0
  show ?case by simp
next
  case (Suc m)
  then have "c ! m + d ! m = a ! m + b ! m"
    using swapped_cell[OF assms, of m] by auto
  then have "c ! m * 10 ^ m + d ! m * 10 ^ m = a ! m * 10 ^ m + b ! m * 10 ^ m"
    by (simp only: distrib_right[symmetric])
  with Suc show ?case
    by (simp add: low_value_Suc)
qed

lemma swapped_low_diff:
  assumes "swapped_from 0 a b c d"
  shows "m \<le> length a \<Longrightarrow> \<bar>low_value m c - low_value m d\<bar> \<le> spread a b m"
proof (induction m)
  case 0
  show ?case by (simp add: spread_def)
next
  case (Suc m)
  then have "\<bar>c ! m - d ! m\<bar> = \<bar>a ! m - b ! m\<bar>"
    using swapped_cell[OF assms, of m] by auto
  then have e: "\<bar>(c ! m - d ! m) * 10 ^ m\<bar> = \<bar>a ! m - b ! m\<bar> * 10 ^ m"
    by (simp add: abs_mult)
  have "low_value (Suc m) c - low_value (Suc m) d
      = (low_value m c - low_value m d) + (c ! m - d ! m) * 10 ^ m"
    by (simp add: low_value_Suc algebra_simps)
  also have "\<bar>\<dots>\<bar> \<le> \<bar>low_value m c - low_value m d\<bar> + \<bar>(c ! m - d ! m) * 10 ^ m\<bar>"
    by (rule abs_triangle_ineq)
  also have "\<dots> \<le> spread a b m + \<bar>a ! m - b ! m\<bar> * 10 ^ m"
    using Suc e by simp
  finally show ?case
    by (simp only: spread_Suc)
qed

lemma swapped_trans:
  assumes "swapped_from 0 a b c d" and "swapped_from 0 c d e f"
  shows "swapped_from 0 a b e f"
proof -
  have len: "length c = length a" "length d = length b" "length e = length c" "length f = length d"
    using assms by (simp_all add: swapped_from_def)
  have "(e ! i = a ! i \<and> f ! i = b ! i) \<or> (e ! i = b ! i \<and> f ! i = a ! i)" if "i < length a" for i
    using swapped_cell[OF assms(1) that] swapped_cell[OF assms(2), of i] that len by auto
  then show ?thesis
    using len by (simp add: swapped_from_def)
qed

lemma swapped_back:
  assumes "swapped_from 0 a b c d" and "swapped_from 0 a b e f"
  shows "swapped_from 0 c d e f"
proof -
  have len: "length c = length a" "length d = length b" "length e = length a" "length f = length b"
    using assms by (simp_all add: swapped_from_def)
  have "(e ! i = c ! i \<and> f ! i = d ! i) \<or> (e ! i = d ! i \<and> f ! i = c ! i)" if "i < length c" for i
    using swapped_cell[OF assms(1), of i] swapped_cell[OF assms(2), of i] that len by auto
  then show ?thesis
    using len by (simp add: swapped_from_def)
qed

lemma swap_one_cell:
  assumes "length c = length d" and "m < length c"
  shows "swapped_from 0 c d (c[m := d ! m]) (d[m := c ! m])"
proof -
  have "((c[m := d ! m]) ! i = c ! i \<and> (d[m := c ! m]) ! i = d ! i) \<or>
      ((c[m := d ! m]) ! i = d ! i \<and> (d[m := c ! m]) ! i = c ! i)" if "i < length c" for i
    using that assms by (cases "i = m") simp_all
  then show ?thesis
    by (simp add: swapped_from_def)
qed

lemma product_order:
  fixes x y x' y' :: int
  assumes "x + y = x' + y'" and "\<bar>x - y\<bar> \<le> \<bar>x' - y'\<bar>"
  shows "x' * y' \<le> x * y"
proof -
  have "(x - y)\<^sup>2 \<le> (x' - y')\<^sup>2"
    using assms(2) by (simp add: abs_le_square_iff)
  moreover have "4 * (x * y) = (x + y)\<^sup>2 - (x - y)\<^sup>2"
    by (simp add: power2_eq_square algebra_simps)
  moreover have "4 * (x' * y') = (x' + y')\<^sup>2 - (x' - y')\<^sup>2"
    by (simp add: power2_eq_square algebra_simps)
  ultimately have "4 * (x' * y') \<le> 4 * (x * y)"
    using assms(1) by simp
  then show ?thesis
    by simp
qed

lemma min_loop_spec:
  "length c = length d \<Longrightarrow> m \<le> length c \<Longrightarrow>
   \<exists>c' d'. min_loop (rev [0..<m]) c d = (c', d') \<and> swapped_from 0 c d c' d' \<and>
     (\<forall>i. m \<le> i \<longrightarrow> c' ! i = c ! i \<and> d' ! i = d ! i) \<and>
     low_value m c' - low_value m d' = spread c d m"
proof (induction m arbitrary: c d)
  case 0
  then show ?case
    by (simp add: swapped_from_refl spread_def)
next
  case (Suc m)
  then have m: "m < length c" "m \<le> length c"
    by simp_all
  define c1 where "c1 = (if c ! m < d ! m then c[m := d ! m] else c)"
  define d1 where "d1 = (if c ! m < d ! m then d[m := c ! m] else d)"
  have len1: "length c1 = length d1" "m \<le> length c1"
    using Suc.prems by (simp_all add: c1_def d1_def)
  have s1: "swapped_from 0 c d c1 d1"
    using swap_one_cell[OF Suc.prems(1) m(1)] by (simp add: c1_def d1_def swapped_from_refl)
  have top: "c1 ! m - d1 ! m = \<bar>c ! m - d ! m\<bar>"
    using m Suc.prems(1) by (simp add: c1_def d1_def)
  have same: "c1 ! i = c ! i \<and> d1 ! i = d ! i" if "i \<noteq> m" for i
    using that by (simp add: c1_def d1_def)
  from Suc.IH[OF len1]
  obtain c' d' where r: "min_loop (rev [0..<m]) c1 d1 = (c', d')" "swapped_from 0 c1 d1 c' d'"
    "\<forall>i. m \<le> i \<longrightarrow> c' ! i = c1 ! i \<and> d' ! i = d1 ! i"
    "low_value m c' - low_value m d' = spread c1 d1 m"
    by blast
  have "min_loop (rev [0..<Suc m]) c d = min_loop (rev [0..<m]) c1 d1"
    unfolding c1_def d1_def by simp
  with r(1) have run: "min_loop (rev [0..<Suc m]) c d = (c', d')"
    by simp
  have keep: "\<forall>i. Suc m \<le> i \<longrightarrow> c' ! i = c ! i \<and> d' ! i = d ! i"
    using r(3) same by auto
  have sp: "spread c1 d1 m = spread c d m"
    by (rule spread_cong) (simp add: same)
  have topc: "c' ! m = c1 ! m" "d' ! m = d1 ! m"
    using r(3) by simp_all
  have "low_value (Suc m) c' - low_value (Suc m) d'
      = (low_value m c' - low_value m d') + (c1 ! m - d1 ! m) * 10 ^ m"
    by (simp add: low_value_Suc topc algebra_simps)
  then have "low_value (Suc m) c' - low_value (Suc m) d' = spread c d (Suc m)"
    unfolding r(4) sp top spread_Suc .
  with run keep swapped_trans[OF s1 r(2)] show ?case
    by blast
qed

lemma max_loop_spec:
  "length c = length d \<Longrightarrow> valid_digits c \<Longrightarrow> valid_digits d \<Longrightarrow> m \<le> length c \<Longrightarrow>
   \<exists>c' d'. max_loop (rev [0..<m]) c d found = (c', d') \<and> swapped_from 0 c d c' d' \<and>
     (\<forall>i. m \<le> i \<longrightarrow> c' ! i = c ! i \<and> d' ! i = d ! i) \<and>
     (found \<longrightarrow> low_value m c' - low_value m d' = - spread c d m) \<and>
     (\<not> found \<longrightarrow> 0 \<le> low_value m c' - low_value m d' \<and>
        (\<forall>c'' d''. swapped_from 0 c d c'' d'' \<longrightarrow>
           low_value m c' - low_value m d' \<le> \<bar>low_value m c'' - low_value m d''\<bar>))"
proof (induction m arbitrary: c d found)
  case 0
  then show ?case
    by (simp add: swapped_from_refl spread_def)
next
  case (Suc m)
  then have m: "m < length c" "m \<le> length c" "m \<le> length d"
    by simp_all
  note len = \<open>length c = length d\<close>
  define sw where "sw \<longleftrightarrow>
    (\<not> found \<and> c ! m \<noteq> d ! m \<and> c ! m < d ! m) \<or> (found \<and> c ! m > d ! m)"
  define c1 where "c1 = (if sw then c[m := d ! m] else c)"
  define d1 where "d1 = (if sw then d[m := c ! m] else d)"
  define found1 where "found1 \<longleftrightarrow> found \<or> c1 ! m \<noteq> d1 ! m"
  have len1: "length c1 = length d1" "m \<le> length c1"
    using Suc.prems by (simp_all add: c1_def d1_def)
  have s1: "swapped_from 0 c d c1 d1"
    using swap_one_cell[OF len m(1)] by (simp add: c1_def d1_def swapped_from_refl)
  have v1: "valid_digits c1" "valid_digits d1"
    using swapped_from_valid[OF Suc.prems(2,3) len s1] by simp_all
  have same: "c1 ! i = c ! i \<and> d1 ! i = d ! i" if "i \<noteq> m" for i
    using that by (simp add: c1_def d1_def)
  have f1: "found1 \<longleftrightarrow> found \<or> c ! m \<noteq> d ! m"
    using m len by (auto simp: found1_def c1_def d1_def)
  from Suc.IH[OF len1(1) v1 len1(2), of found1]
  obtain c' d' where r: "max_loop (rev [0..<m]) c1 d1 found1 = (c', d')"
    "swapped_from 0 c1 d1 c' d'"
    "\<forall>i. m \<le> i \<longrightarrow> c' ! i = c1 ! i \<and> d' ! i = d1 ! i"
    "found1 \<longrightarrow> low_value m c' - low_value m d' = - spread c1 d1 m"
    "\<not> found1 \<longrightarrow> 0 \<le> low_value m c' - low_value m d' \<and>
        (\<forall>c'' d''. swapped_from 0 c1 d1 c'' d'' \<longrightarrow>
           low_value m c' - low_value m d' \<le> \<bar>low_value m c'' - low_value m d''\<bar>)"
    by blast
  have "max_loop (rev [0..<Suc m]) c d found = max_loop (rev [0..<m]) c1 d1 found1"
    unfolding c1_def d1_def found1_def sw_def by (simp add: Let_def)
  with r(1) have run: "max_loop (rev [0..<Suc m]) c d found = (c', d')"
    by simp
  have keep: "\<forall>i. Suc m \<le> i \<longrightarrow> c' ! i = c ! i \<and> d' ! i = d ! i"
    using r(3) same by auto
  have sp: "spread c1 d1 m = spread c d m"
    by (rule spread_cong) (simp add: same)
  have topc: "c' ! m = c1 ! m" "d' ! m = d1 ! m"
    using r(3) by simp_all
  have D: "low_value (Suc m) c' - low_value (Suc m) d'
      = (low_value m c' - low_value m d') + (c1 ! m - d1 ! m) * 10 ^ m"
    by (simp add: low_value_Suc topc algebra_simps)
  have sb: "0 \<le> spread c d m" "spread c d m < 10 ^ m"
    using spread_bounds[OF Suc.prems(2,3) m(2,3)] by simp_all
  have found_case: "low_value (Suc m) c' - low_value (Suc m) d' = - spread c d (Suc m)" if found
  proof -
    from that have a: "c1 ! m - d1 ! m = - \<bar>c ! m - d ! m\<bar>"
      using m len by (simp add: c1_def d1_def sw_def)
    have b: "low_value m c' - low_value m d' = - spread c d m"
      using r(4) f1 that sp by simp
    show ?thesis
      unfolding D a b spread_Suc by simp
  qed
  have fresh_case: "0 \<le> low_value (Suc m) c' - low_value (Suc m) d' \<and>
      (\<forall>c'' d''. swapped_from 0 c d c'' d'' \<longrightarrow>
         low_value (Suc m) c' - low_value (Suc m) d'
           \<le> \<bar>low_value (Suc m) c'' - low_value (Suc m) d''\<bar>)" if "\<not> found"
  proof (cases "c ! m = d ! m")
    case True
    with that have nf: "\<not> found1" and z: "c1 ! m - d1 ! m = 0"
      using f1 by (simp_all add: c1_def d1_def sw_def)
    have "low_value (Suc m) c'' - low_value (Suc m) d'' = low_value m c'' - low_value m d''"
      if s: "swapped_from 0 c d c'' d''" for c'' d''
    proof -
      have "c'' ! m = d'' ! m"
        using swapped_cell[OF s m(1)] True by auto
      then show ?thesis
        by (simp add: low_value_Suc)
    qed
    moreover have "swapped_from 0 c1 d1 c'' d''" if "swapped_from 0 c d c'' d''" for c'' d''
      using swapped_back[OF s1 that] .
    ultimately show ?thesis
      using r(5) nf by (simp add: D z)
  next
    case False
    with that have f: found1 and top: "c1 ! m - d1 ! m = \<bar>c ! m - d ! m\<bar>"
      using f1 m len by (auto simp: c1_def d1_def sw_def)
    have one: "1 \<le> \<bar>c ! m - d ! m\<bar>"
      using False by simp
    then have "1 * 10 ^ m \<le> \<bar>c ! m - d ! m\<bar> * 10 ^ m"
      by (rule mult_right_mono) simp
    then have big: "(10::int) ^ m \<le> \<bar>c ! m - d ! m\<bar> * 10 ^ m"
      by simp
    have b: "low_value m c' - low_value m d' = - spread c d m"
      using r(4) f sp by simp
    have Dv: "low_value (Suc m) c' - low_value (Suc m) d'
        = \<bar>c ! m - d ! m\<bar> * 10 ^ m - spread c d m"
      unfolding D top b by simp
    have "0 \<le> low_value (Suc m) c' - low_value (Suc m) d'"
      using big sb unfolding Dv by linarith
    moreover have "low_value (Suc m) c' - low_value (Suc m) d'
        \<le> \<bar>low_value (Suc m) c'' - low_value (Suc m) d''\<bar>"
      if s: "swapped_from 0 c d c'' d''" for c'' d''
    proof -
      have "\<bar>c'' ! m - d'' ! m\<bar> = \<bar>c ! m - d ! m\<bar>"
        using swapped_cell[OF s m(1)] by auto
      then have t: "\<bar>(c'' ! m - d'' ! m) * 10 ^ m\<bar> = \<bar>c ! m - d ! m\<bar> * 10 ^ m"
        by (simp add: abs_mult)
      have l: "\<bar>low_value m c'' - low_value m d''\<bar> \<le> spread c d m"
        using swapped_low_diff[OF s m(2)] .
      have "low_value (Suc m) c'' - low_value (Suc m) d''
          = (c'' ! m - d'' ! m) * 10 ^ m + (low_value m c'' - low_value m d'')"
        by (simp add: low_value_Suc algebra_simps)
      moreover have "\<bar>(c'' ! m - d'' ! m) * 10 ^ m\<bar> - \<bar>low_value m c'' - low_value m d''\<bar>
          \<le> \<bar>(c'' ! m - d'' ! m) * 10 ^ m + (low_value m c'' - low_value m d'')\<bar>"
        by linarith
      ultimately show ?thesis
        using t l unfolding Dv by linarith
    qed
    ultimately show ?thesis
      by blast
  qed
  from run keep swapped_trans[OF s1 r(2)] found_case fresh_case show ?case
    by blast
qed

lemma swapped_values:
  assumes "swapped_from 0 a b c d" and "length a = length b"
  shows "low_value (length a) c = BigInt_int c" and "low_value (length a) d = BigInt_int d"
    and "BigInt_int c + BigInt_int d = BigInt_int a + BigInt_int b"
proof -
  have len: "length c = length a" "length d = length a"
    using assms by (simp_all add: swapped_from_def)
  show c: "low_value (length a) c = BigInt_int c"
    using low_value_full[of c] by (simp add: len)
  show d: "low_value (length a) d = BigInt_int d"
    using low_value_full[of d] by (simp add: len)
  have la: "low_value (length a) a = BigInt_int a"
    by (rule low_value_full)
  have lb: "low_value (length a) b = BigInt_int b"
    unfolding assms(2) by (rule low_value_full)
  from swapped_low_sum[OF assms(1) le_refl]
  show "BigInt_int c + BigInt_int d = BigInt_int a + BigInt_int b"
    unfolding c d la lb .
qed

lemma calc_max_product_spec:
  assumes "valid_digits a" and "valid_digits b" and "length a = length b"
  shows "\<exists>c d p. calc_max_product a b = Inr (c, d, p) \<and> is_max_of 0 a b p"
proof -
  from max_loop_spec[OF assms(3,1,2), of "length a" False]
  obtain c d where r: "max_loop (rev [0..<length a]) a b False = (c, d)"
    "swapped_from 0 a b c d"
    "0 \<le> low_value (length a) c - low_value (length a) d"
    "\<forall>c'' d''. swapped_from 0 a b c'' d'' \<longrightarrow>
       low_value (length a) c - low_value (length a) d
         \<le> \<bar>low_value (length a) c'' - low_value (length a) d''\<bar>"
    by auto
  have v: "valid_digits c" "valid_digits d"
    using swapped_from_valid[OF assms r(2)] by simp_all
  from BigInt_mul_correct[OF v]
  obtain p where p: "BigInt_mul c (BigIntObj d) = Inr p" "valid_digits p" "canonical p"
    "BigInt_int p = BigInt_int c * BigInt_int d"
    by blast
  have run: "calc_max_product a b = Inr (c, d, p)"
    using assms(3) r(1) p(1) by (simp add: calc_max_product_def BigInt_len_def)
  have "BigInt_int e * BigInt_int f \<le> BigInt_int p" if s: "swapped_from 0 a b e f" for e f
  proof -
    have "BigInt_int c + BigInt_int d = BigInt_int e + BigInt_int f"
      using swapped_values(3)[OF r(2) assms(3)] swapped_values(3)[OF s assms(3)] by simp
    moreover have "\<bar>BigInt_int c - BigInt_int d\<bar> \<le> \<bar>BigInt_int e - BigInt_int f\<bar>"
    proof -
      have "0 \<le> BigInt_int c - BigInt_int d"
        using r(3) unfolding swapped_values(1,2)[OF r(2) assms(3)] .
      moreover have "BigInt_int c - BigInt_int d \<le> \<bar>BigInt_int e - BigInt_int f\<bar>"
        using r(4)[rule_format, OF s]
        unfolding swapped_values(1,2)[OF r(2) assms(3)] swapped_values(1,2)[OF s assms(3)] .
      ultimately show ?thesis
        by simp
    qed
    ultimately show ?thesis
      unfolding p(4) by (rule product_order)
  qed
  then have "is_max_of 0 a b p"
    using p(2,3,4) r(2) by (auto simp: is_max_of_def)
  with run show ?thesis
    by blast
qed

lemma calc_min_product_spec:
  assumes "valid_digits a" and "valid_digits b" and "length a = length b"
  shows "\<exists>c d p. calc_min_product a b = Inr (c, d, p) \<and> is_min_of 0 a b p"
proof -
  from min_loop_spec[OF assms(3), of "length a"]
  obtain c d where r: "min_loop (rev [0..<length a]) a b = (c, d)"
    "swapped_from 0 a b c d"
    "low_value (length a) c - low_value (length a) d = spread a b (length a)"
    by auto
  have v: "valid_digits c" "valid_digits d"
    using swapped_from_valid[OF assms r(2)] by simp_all
  from BigInt_mul_correct[OF v]
  obtain p where p: "BigInt_mul c (BigIntObj d) = Inr p" "valid_digits p" "canonical p"
    "BigInt_int p = BigInt_int c * BigInt_int d"
    by blast
  have run: "calc_min_product a b = Inr (c, d, p)"
    using assms(3) r(1) p(1) by (simp add: calc_min_product_def BigInt_len_def)
  have "BigInt_int p \<le> BigInt_int e * BigInt_int f" if s: "swapped_from 0 a b e f" for e f
  proof -
    have "BigInt_int e + BigInt_int f = BigInt_int c + BigInt_int d"
      using swapped_values(3)[OF r(2) assms(3)] swapped_values(3)[OF s assms(3)] by simp
    moreover have "\<bar>BigInt_int e - BigInt_int f\<bar> \<le> \<bar>BigInt_int c - BigInt_int d\<bar>"
    proof -
      have "BigInt_int c - BigInt_int d = spread a b (length a)"
        using r(3) unfolding swapped_values(1,2)[OF r(2) assms(3)] .
      moreover have "\<bar>BigInt_int e - BigInt_int f\<bar> \<le> spread a b (length a)"
        using swapped_low_diff[OF s le_refl] unfolding swapped_values(1,2)[OF s assms(3)] .
      ultimately show ?thesis
        by simp
    qed
    ultimately show ?thesis
      unfolding p(4) by (rule product_order)
  qed
  then have "is_min_of 0 a b p"
    using p(2,3,4) r(2) by (auto simp: is_min_of_def)
  with run show ?thesis
    by blast
qed

lemma is_max_of_unique: "is_max_of idx a b p \<Longrightarrow> is_max_of idx a b q \<Longrightarrow> p = q"
proof -
  assume p: "is_max_of idx a b p" and q: "is_max_of idx a b q"
  then have "BigInt_int p \<le> BigInt_int q" "BigInt_int q \<le> BigInt_int p"
    by (auto simp: is_max_of_def)
  then have "BigInt_int p = BigInt_int q"
    by simp
  with p q show "p = q"
    by (intro canonical_unique) (simp_all add: is_max_of_def)
qed

lemma is_min_of_unique: "is_min_of idx a b p \<Longrightarrow> is_min_of idx a b q \<Longrightarrow> p = q"
proof -
  assume p: "is_min_of idx a b p" and q: "is_min_of idx a b q"
  then have "BigInt_int p \<le> BigInt_int q" "BigInt_int q \<le> BigInt_int p"
    by (auto simp: is_min_of_def)
  then have "BigInt_int p = BigInt_int q"
    by simp
  with p q show "p = q"
    by (intro canonical_unique) (simp_all add: is_min_of_def)
qed

section \<open>The greedy solvers against the brute-force search\<close>

text \<open>
  C3. For every pair of values \<open>a\<close>, \<open>b\<close> of the same length whose cells are digits (of any
  length, so in particular up to 12), the product returned by \<open>calc_max_product\<close> is the
  maximum product returned by \<open>calc_extreme_products_brute\<close>, and the product returned by
  \<open>calc_min_product\<close> is its minimum product: the same digit lists, which \<open>==\<close> of the class
  reports equal.
\<close>

theorem greedy_matches_brute_force:
  assumes "valid_digits a" and "valid_digits b" and "length a = length b"
  shows "\<exists>c d p c' d' p' c_max d_max p_max c_min d_min p_min.
    calc_max_product a b = Inr (c, d, p) \<and>
    calc_min_product a b = Inr (c', d', p') \<and>
    calc_extreme_products_brute a b 0 = Inr (c_max, d_max, p_max, c_min, d_min, p_min) \<and>
    p = p_max \<and> p' = p_min \<and>
    BigInt_eq p (BigIntObj p_max) \<and> BigInt_eq p' (BigIntObj p_min)"
proof -
  from calc_max_product_spec[OF assms]
  obtain c d p where g: "calc_max_product a b = Inr (c, d, p)" "is_max_of 0 a b p"
    by blast
  from calc_min_product_spec[OF assms]
  obtain c' d' p' where h: "calc_min_product a b = Inr (c', d', p')" "is_min_of 0 a b p'"
    by blast
  from brute_spec[OF assms, of 0]
  obtain c_max d_max p_max c_min d_min p_min where
    b: "calc_extreme_products_brute a b 0 = Inr (c_max, d_max, p_max, c_min, d_min, p_min)"
    "is_max_of 0 a b p_max" "is_min_of 0 a b p_min"
    by blast
  have "p = p_max" "p' = p_min"
    using is_max_of_unique[OF g(2) b(2)] is_min_of_unique[OF h(2) b(3)] by simp_all
  with g(1) h(1) b(1) show ?thesis
    by (simp add: BigInt_eq_iff)
qed

lemma calc_max_product_12_34:
  "calc_max_product [2, 1] [4, 3] = Inr ([2, 3], [4, 1], [8, 4, 4])"
  by (simp add: calc_max_product_def BigInt_len_def BigInt_mul_def upt_rec add_at_evals Let_def)

lemma calc_min_product_12_34:
  "calc_min_product [2, 1] [4, 3] = Inr ([4, 3], [2, 1], [8, 0, 4])"
  by (simp add: calc_min_product_def BigInt_len_def BigInt_mul_def upt_rec add_at_evals Let_def)

theorem greedy_matches_brute_force_witness:
  "valid_digits [2, 1] \<and> valid_digits [4, 3] \<and> length [2, 1 :: int] = length [4, 3 :: int] \<and>
   calc_max_product [2, 1] [4, 3] = Inr ([2, 3], [4, 1], [8, 4, 4]) \<and>
   calc_min_product [2, 1] [4, 3] = Inr ([4, 3], [2, 1], [8, 0, 4]) \<and>
   (\<exists>c_max d_max c_min d_min.
      calc_extreme_products_brute [2, 1] [4, 3] 0 =
        Inr (c_max, d_max, [8, 4, 4], c_min, d_min, [8, 0, 4]))"
proof -
  have v: "valid_digits [2, 1]" "valid_digits [4, 3]"
    by (simp_all add: valid_digits_def)
  have l: "length [2, 1 :: int] = length [4, 3 :: int]"
    by simp
  from greedy_matches_brute_force[OF v l]
  have "\<exists>c_max d_max c_min d_min.
      calc_extreme_products_brute [2, 1] [4, 3] 0 =
        Inr (c_max, d_max, [8, 4, 4], c_min, d_min, [8, 0, 4])"
    by (auto simp: calc_max_product_12_34 calc_min_product_12_34)
  with v l show ?thesis
    by (simp add: calc_max_product_12_34 calc_min_product_12_34)
qed

end
